theory Spec2Isabelle
  imports Main "HOL-Library.Word" "HOL-Library.AList" "HOL-Library.Sublist"
begin


section \<open>The in-memory cache adapter of echo-http-cache\<close>

text \<open>
  The development follows \<^verbatim>\<open>adapter/memory/memory.go\<close>: the entry codec
  (\<^verbatim>\<open>Response.Bytes\<close>, \<^verbatim>\<open>BytesToResponse\<close>), the store operations
  (\<^verbatim>\<open>Get\<close>, \<^verbatim>\<open>Set\<close>, \<^verbatim>\<open>Release\<close>, \<^verbatim>\<open>Purge\<close>), the eviction scan
  (\<^verbatim>\<open>evict\<close>) and the constructor (\<^verbatim>\<open>NewAdapter\<close> with its options).

  The store operations are functions of the store: one call runs at a time. The last
  section cuts \<^verbatim>\<open>Set\<close> where it takes and releases the mutex and lets calls
  take turns. What a call takes from its environment is an argument of the model: every
  \<^verbatim>\<open>time.Now()\<close> is a clock reading passed in, and the order in which
  \<^verbatim>\<open>range a.store\<close> visits the entries is a list passed in, since Go leaves that
  order open.
\<close>

subsection \<open>Bytes and gob's integers\<close>

type_synonym byte = "8 word"
type_synonym bytes = "byte list"

text \<open>Big-endian bytes: \<open>be_bytes n x\<close> writes \<open>x\<close> into \<open>n\<close> bytes, \<open>be_val\<close> reads them.\<close>

fun be_bytes :: "nat \<Rightarrow> nat \<Rightarrow> bytes" where
  "be_bytes 0 x = []"
| "be_bytes (Suc n) x = be_bytes n (x div 256) @ [of_nat (x mod 256)]"

definition be_val :: "bytes \<Rightarrow> nat" where
  "be_val bs = foldl (\<lambda>a b. a * 256 + unat b) 0 bs"

text \<open>The number of bytes of an unsigned integer, at least one.\<close>

fun bytelen :: "nat \<Rightarrow> nat" where
  "bytelen x = (if x < 256 then 1 else Suc (bytelen (x div 256)))"

declare bytelen.simps [simp del]

text \<open>
  gob's unsigned integer: a value below 128 is one byte; any other value is its
  minimal-length big-endian bytes, preceded by one byte holding the negated byte count.
  The decoder refuses a count above 8 and a count above the bytes that are left; it accepts
  an encoding that is not minimal.
\<close>

definition encodeUint :: "64 word \<Rightarrow> bytes" where
  "encodeUint x =
     (if x \<le> 0x7F then [ucast x]
      else (let n = bytelen (unat x) in of_nat (256 - n) # be_bytes n (unat x)))"

fun decodeUint :: "bytes \<Rightarrow> (64 word \<times> bytes) option" where
  "decodeUint [] = None"
| "decodeUint (b # buf) =
     (if b \<le> 0x7F then Some (ucast b, buf)
      else (let n = 256 - unat b in
        if n > 8 then None
        else if n > length buf then None
        else Some (of_nat (be_val (take n buf)), drop n buf)))"

lemma be_val_snoc: "be_val (bs @ [b]) = be_val bs * 256 + unat b"
  by (simp add: be_val_def)

lemma length_be_bytes [simp]: "length (be_bytes n x) = n"
  by (induction n arbitrary: x) auto

lemma be_val_be_bytes: "be_val (be_bytes n x) = x mod 256 ^ n"
proof (induction n arbitrary: x)
  case 0
  show ?case by (simp add: be_val_def)
next
  case (Suc n)
  have "unat (of_nat (x mod 256) :: byte) = x mod 256"
    by (simp add: unat_of_nat)
  then show ?case
    by (simp add: be_val_snoc Suc mod_mult2_eq)
qed

lemma bytelen_pos: "0 < bytelen x"
  by (subst bytelen.simps) simp

lemma bytelen_bound: "x < 256 ^ bytelen x"
proof (induction x rule: bytelen.induct)
  case (1 x)
  show ?case
  proof (cases "x < 256")
    case True
    then show ?thesis by (subst bytelen.simps) simp
  next
    case False
    with 1 have "x div 256 < 256 ^ bytelen (x div 256)" by simp
    then have "x < 256 * 256 ^ bytelen (x div 256)"
      by (simp add: div_less_iff_less_mult mult.commute) 
    with False show ?thesis by (subst bytelen.simps) simp
  qed
qed

lemma bytelen_le: "x < 256 ^ n \<Longrightarrow> 0 < n \<Longrightarrow> bytelen x \<le> n"
proof (induction x arbitrary: n rule: bytelen.induct)
  case (1 x)
  show ?case
  proof (cases "x < 256")
    case True
    with 1 show ?thesis by (subst bytelen.simps) simp
  next
    case False
    then obtain m where n: "n = Suc m" using 1(3) by (cases n) auto
    with False 1(2) have m: "0 < m" by (cases m) auto
    from 1(2) n have "x div 256 < 256 ^ m"
      by (simp add: less_mult_imp_div_less mult.commute)
    with 1(1)[OF False _ m] have "bytelen (x div 256) \<le> m" by simp
    with False n show ?thesis by (subst bytelen.simps) simp
  qed
qed

lemma bytelen_word64: "bytelen (unat (x :: 64 word)) \<le> 8"
proof -
  have "unat x < 2 ^ 64" using unsigned_less [of x] by simp
  then have "unat x < 256 ^ 8" by simp
  then show ?thesis by (rule bytelen_le) simp
qed

lemma decodeUint_encodeUint: "decodeUint (encodeUint x @ rest) = Some (x, rest)"
proof (cases "x \<le> 0x7F")
  case True
  then have "unat x \<le> 127" by (simp add: word_le_nat_alt)
  then have "(ucast x :: byte) \<le> 0x7F"
    by (simp add: word_le_nat_alt unsigned_ucast_eq take_bit_eq_mod)
  moreover have "(ucast (ucast x :: byte) :: 64 word) = x"
    using \<open>unat x \<le> 127\<close>
    by (simp add: word_eq_iff_unsigned[where ?'a = nat] unsigned_ucast_eq take_bit_eq_mod unat_mod)
  ultimately show ?thesis using True by (simp add: encodeUint_def)
next
  case False
  define n where "n = bytelen (unat x)"
  have n: "0 < n" "n \<le> 8" by (simp_all add: n_def bytelen_pos bytelen_word64)
  have b: "unat (of_nat (256 - n) :: byte) = 256 - n"
    using n by (subst unat_of_nat) simp
  then have nle: "\<not> (of_nat (256 - n) :: byte) \<le> 0x7F"
    using n by (simp add: word_le_nat_alt)
  have "be_val (be_bytes n (unat x)) = unat x"
    using bytelen_bound [of "unat x"] by (simp add: be_val_be_bytes n_def)
  then show ?thesis
    using False n nle b by (simp add: encodeUint_def n_def [symmetric] Let_def)
qed


subsection \<open>Times\<close>

text \<open>
  A time is Go's \<^verbatim>\<open>time.Time\<close> as far as the package can tell two of them apart:
  the instant, counted in nanoseconds from Go's zero time (January 1, year 1, UTC), and the
  location, which is UTC or a zone with its offset in seconds east of UTC.
  \<^verbatim>\<open>time.Local\<close> and a fixed zone at the same offset are the same location here, and
  the name of a zone is not kept. \<^verbatim>\<open>time.Time{}\<close> is the instant 0 in UTC. The
  monotonic clock reading that \<^verbatim>\<open>time.Now()\<close> attaches is left out:
  \<^verbatim>\<open>MarshalBinary\<close> does not write it, and no comparison of the package has it on
  both sides. \<^verbatim>\<open>Before\<close>, \<^verbatim>\<open>After\<close> and \<^verbatim>\<open>Equal\<close> compare instants.
\<close>

datatype Location = UTC | Zone int

record Time =
  instant :: int
  loc :: Location

definition zero_Time :: Time where
  "zero_Time = \<lparr>instant = 0, loc = UTC\<rparr>"

definition Before :: "Time \<Rightarrow> Time \<Rightarrow> bool" where
  "Before t u \<longleftrightarrow> instant t < instant u"

definition After :: "Time \<Rightarrow> Time \<Rightarrow> bool" where
  "After t u \<longleftrightarrow> instant u < instant t"

definition Equal :: "Time \<Rightarrow> Time \<Rightarrow> bool" where
  "Equal t u \<longleftrightarrow> instant t = instant u"

text \<open>Go's integer division and remainder, which truncate towards zero.\<close>

definition quot :: "int \<Rightarrow> int \<Rightarrow> int" where
  "quot a b = sgn a * sgn b * (\<bar>a\<bar> div \<bar>b\<bar>)"

definition rem :: "int \<Rightarrow> int \<Rightarrow> int" where
  "rem a b = a - b * quot a b"

text \<open>
  \<^verbatim>\<open>Time.MarshalBinary\<close>: a version byte, the seconds since the zero time in 8 bytes
  (two's complement), the nanoseconds in 4 bytes and the zone offset in minutes in 2 bytes,
  where -1 stands for UTC. A zone whose offset is not a whole number of minutes is written
  in version 2, with the seconds of the offset in one more byte. It is an error when the
  offset in minutes is -1, which would read as UTC, or does not fit 16 bits.

  \<^verbatim>\<open>Time.UnmarshalBinary\<close> refuses empty data, a version other than 1 and 2, and a
  length other than that of the version; it checks nothing else, and adds the seconds byte
  of version 2 as an unsigned number. The instant it returns is Go's for every nanosecond
  field below \<open>10^9\<close>, the only ones \<^verbatim>\<open>MarshalBinary\<close> writes.
\<close>

definition int64_be :: "bytes \<Rightarrow> int" where
  "int64_be bs = (let u = be_val bs in if u < 2 ^ 63 then int u else int u - 2 ^ 64)"

definition int16_be :: "bytes \<Rightarrow> int" where
  "int16_be bs = (let u = be_val bs in if u < 2 ^ 15 then int u else int u - 2 ^ 16)"

definition time_fields :: "Time \<Rightarrow> bytes" where
  "time_fields t =
     be_bytes 8 (nat ((instant t div 1000000000) mod 2 ^ 64))
     @ be_bytes 4 (nat (instant t mod 1000000000))"

definition time_MarshalBinary :: "Time \<Rightarrow> bytes option" where
  "time_MarshalBinary t =
     (case loc t of
        UTC \<Rightarrow> Some (1 # time_fields t @ [0xFF, 0xFF])
      | Zone offset \<Rightarrow>
          (let offsetSec = rem offset 60;
               offsetMin = quot offset 60
           in if offsetMin < - 32768 \<or> offsetMin = - 1 \<or> 32767 < offsetMin then None
              else if offsetSec \<noteq> 0 then
                Some (2 # time_fields t @ be_bytes 2 (nat (offsetMin mod 2 ^ 16))
                        @ [of_int offsetSec])
              else Some (1 # time_fields t @ be_bytes 2 (nat (offsetMin mod 2 ^ 16)))))"

definition time_UnmarshalBinary :: "bytes \<Rightarrow> Time option" where
  "time_UnmarshalBinary data =
     (if data = [] then None
      else if hd data \<noteq> 1 \<and> hd data \<noteq> 2 then None
      else if length data \<noteq> (if hd data = 2 then 16 else 15) then None
      else (let sec = int64_be (take 8 (drop 1 data));
                nsec = be_val (take 4 (drop 9 data));
                offsetMin = int16_be (take 2 (drop 13 data));
                offset = offsetMin * 60 + (if hd data = 2 then int (unat (data ! 15)) else 0)
            in Some \<lparr>instant = sec * 1000000000 + int nsec,
                      loc = (if offset = - 60 then UTC else Zone offset)\<rparr>))"

text \<open>
  The times that \<^verbatim>\<open>time.Time\<close> can hold (its seconds are an \<^verbatim>\<open>int64\<close>) and
  that \<^verbatim>\<open>MarshalBinary\<close> writes in version 1: in UTC, or in a zone at a whole number
  of minutes that is not -1 and fits 16 bits.
\<close>

definition valid_zone :: "Location \<Rightarrow> bool" where
  "valid_zone l \<longleftrightarrow>
     (case l of
        UTC \<Rightarrow> True
      | Zone offset \<Rightarrow>
          offset mod 60 = 0 \<and> offset div 60 \<noteq> - 1 \<and>
          - 32768 \<le> offset div 60 \<and> offset div 60 \<le> 32767)"

definition valid_time :: "Time \<Rightarrow> bool" where
  "valid_time t \<longleftrightarrow>
     - (2 ^ 63) \<le> instant t div 1000000000 \<and> instant t div 1000000000 < 2 ^ 63 \<and>
     valid_zone (loc t)"

lemma length_time_fields [simp]: "length (time_fields t) = 12"
  by (simp add: time_fields_def)

lemma quot_rem_multiple:
  assumes "offset mod 60 = 0"
  shows "quot offset 60 = offset div 60" and "rem offset 60 = 0"
proof -
  have "60 dvd offset" using assms by (simp add: dvd_eq_mod_eq_0)
  then obtain k where k: "offset = 60 * k" by (rule dvdE)
  show q: "quot offset 60 = offset div 60"
    by (simp add: quot_def k sgn_mult abs_mult mult_sgn_abs)
  show "rem offset 60 = 0" using q assms by (simp add: rem_def k)
qed

lemma int64_be_be_bytes:
  assumes "- (2 ^ 63) \<le> (s :: int)" "s < 2 ^ 63"
  shows "int64_be (be_bytes 8 (nat (s mod 2 ^ 64))) = s"
proof -
  define v where "v = nat (s mod 2 ^ 64)"
  have "v < 256 ^ 8" by (simp add: v_def nat_less_iff)
  then have bu: "be_val (be_bytes 8 v) = v" by (simp add: be_val_be_bytes)
  have "(if v < 2 ^ 63 then int v else int v - 2 ^ 64) = s"
  proof (cases "0 \<le> s")
    case True
    then have "s mod 2 ^ 64 = s" using assms by simp
    then show ?thesis using True assms by (simp add: v_def)
  next
    case False
    have "(s + 2 ^ 64) mod 2 ^ 64 = s + 2 ^ 64"
      using False assms by (intro mod_pos_pos_trivial) simp_all
    then have "s mod 2 ^ 64 = s + 2 ^ 64" by simp
    then show ?thesis using False assms by (simp add: v_def)
  qed
  then show ?thesis
    unfolding int64_be_def Let_def v_def [symmetric] bu .
qed

lemma int16_be_be_bytes:
  assumes "- 32768 \<le> (m :: int)" "m \<le> 32767"
  shows "int16_be (be_bytes 2 (nat (m mod 2 ^ 16))) = m"
proof -
  define v where "v = nat (m mod 2 ^ 16)"
  have "v < 256 ^ 2" by (simp add: v_def nat_less_iff)
  then have bu: "be_val (be_bytes 2 v) = v" by (simp add: be_val_be_bytes)
  have "(if v < 2 ^ 15 then int v else int v - 2 ^ 16) = m"
  proof (cases "0 \<le> m")
    case True
    then have "m mod 2 ^ 16 = m" using assms by simp
    then show ?thesis using True assms by (simp add: v_def)
  next
    case False
    have "(m + 2 ^ 16) mod 2 ^ 16 = m + 2 ^ 16"
      using False assms by (intro mod_pos_pos_trivial) simp_all
    then have "m mod 2 ^ 16 = m + 2 ^ 16" by simp
    then show ?thesis using False assms by (simp add: v_def)
  qed
  then show ?thesis
    unfolding int16_be_def Let_def v_def [symmetric] bu .
qed

lemma int16_be_UTC: "int16_be [0xFF, 0xFF] = - 1"
  by (simp add: int16_be_def be_val_def)

lemma time_UnmarshalBinary_version1:
  assumes "- (2 ^ 63) \<le> instant t div 1000000000" "instant t div 1000000000 < 2 ^ 63"
    and "length z = 2"
  shows "time_UnmarshalBinary (1 # time_fields t @ z)
         = Some \<lparr>instant = instant t,
                  loc = (if int16_be z * 60 = - 60 then UTC else Zone (int16_be z * 60))\<rparr>"
proof -
  define ns where "ns = nat (instant t mod 1000000000)"
  have tf: "time_fields t
      = be_bytes 8 (nat ((instant t div 1000000000) mod 2 ^ 64)) @ be_bytes 4 ns"
    by (simp add: time_fields_def ns_def)
  have "ns < 256 ^ 4" by (simp add: ns_def nat_less_iff)
  then have bn: "be_val (be_bytes 4 ns) = ns" by (simp add: be_val_be_bytes)
  have t8: "take 8 (drop 1 (1 # time_fields t @ z))
      = be_bytes 8 (nat ((instant t div 1000000000) mod 2 ^ 64))"
    by (simp add: tf)
  have "drop 9 (1 # time_fields t @ z) = drop 8 (time_fields t @ z)" by simp
  then have t4: "take 4 (drop 9 (1 # time_fields t @ z)) = be_bytes 4 ns"
    by (simp add: tf)
  have "drop 13 (1 # time_fields t @ z) = drop 12 (time_fields t @ z)" by simp
  then have t2: "take 2 (drop 13 (1 # time_fields t @ z)) = z"
    using assms(3) by simp
  have i: "instant t div 1000000000 * 1000000000 + int ns = instant t"
    by (simp add: ns_def)
  have l: "length (1 # time_fields t @ z) = 15" using assms(3) by simp
  have h: "hd (1 # time_fields t @ z) = 1" "1 # time_fields t @ z \<noteq> []" by simp_all
  show ?thesis
    unfolding time_UnmarshalBinary_def Let_def t8 t4 t2 bn l h
      int64_be_be_bytes [OF assms(1,2)] i
    by simp
qed

lemma time_UnmarshalBinary_MarshalBinary:
  assumes "valid_time t"
  shows "\<exists>d. time_MarshalBinary t = Some d \<and> length d = 15 \<and> time_UnmarshalBinary d = Some t"
proof -
  have r: "- (2 ^ 63) \<le> instant t div 1000000000" "instant t div 1000000000 < 2 ^ 63"
    using assms by (simp_all add: valid_time_def)
  show ?thesis
  proof (cases "loc t")
    case UTC
    have m: "time_MarshalBinary t = Some (1 # time_fields t @ [0xFF, 0xFF])"
      by (simp add: time_MarshalBinary_def UTC)
    have "time_UnmarshalBinary (1 # time_fields t @ [0xFF, 0xFF])
        = Some \<lparr>instant = instant t, loc = UTC\<rparr>"
      by (subst time_UnmarshalBinary_version1 [OF r]) (simp_all add: int16_be_UTC)
    then show ?thesis using m UTC by simp
  next
    case (Zone offset)
    define m where "m = offset div 60"
    have z: "offset mod 60 = 0" "m \<noteq> - 1" "- 32768 \<le> m" "m \<le> 32767"
      using assms Zone by (simp_all add: valid_time_def valid_zone_def m_def)
    have q: "quot offset 60 = m" "rem offset 60 = 0"
      using quot_rem_multiple [OF z(1)] by (simp_all add: m_def)
    have mb: "time_MarshalBinary t
        = Some (1 # time_fields t @ be_bytes 2 (nat (m mod 2 ^ 16)))"
      using z by (simp add: time_MarshalBinary_def Zone q Let_def)
    have off: "m * 60 = offset"
      using z(1) div_mult_mod_eq [of offset 60] by (simp add: m_def)
    have ne: "m * 60 \<noteq> - 60" using z(2) by simp
    have "time_UnmarshalBinary (1 # time_fields t @ be_bytes 2 (nat (m mod 2 ^ 16)))
        = Some \<lparr>instant = instant t, loc = Zone offset\<rparr>"
      using int16_be_be_bytes [OF z(3,4)] z(2) off
      by (subst time_UnmarshalBinary_version1 [OF r]) simp_all
    then show ?thesis using mb Zone by simp
  qed
qed

text \<open>
  The cached entry. \<open>Frequency\<close> is Go's \<^verbatim>\<open>int\<close>, taken as 64 bits wide: an
  integer with the wrap-around written out where Get increments it.
\<close>

record Response =
  Value :: bytes
  Expiration :: Time
  LastAccess :: Time
  Frequency :: int

definition zero_Response :: Response where
  "zero_Response =
     \<lparr>Value = [], Expiration = zero_Time, LastAccess = zero_Time, Frequency = 0\<rparr>"

subsection \<open>gob's signed integers and byte slices\<close>

text \<open>
  gob's signed integer: the value is shifted left by one, complemented first when it is
  negative, and bit 0 says so.
\<close>

definition zigzag :: "int \<Rightarrow> nat" where
  "zigzag i = (if i < 0 then 2 * nat (- i - 1) + 1 else 2 * nat i)"

definition encodeInt :: "int \<Rightarrow> bytes" where
  "encodeInt i = encodeUint (of_nat (zigzag i))"

definition decodeInt :: "bytes \<Rightarrow> (int \<times> bytes) option" where
  "decodeInt buf =
     (case decodeUint buf of
        None \<Rightarrow> None
      | Some (x, rest) \<Rightarrow>
          Some (if odd (unat x) then - int (unat x div 2) - 1 else int (unat x div 2), rest))"

text \<open>
  gob's bound on the length of a message and of a byte slice (on a 64-bit platform), and
  the encoding of a byte slice: its length, then its bytes.
\<close>

definition tooBig :: nat where
  "tooBig = 2 ^ 33"

definition encodeBytes :: "bytes \<Rightarrow> bytes" where
  "encodeBytes v = encodeUint (of_nat (length v)) @ v"

definition decodeBytes :: "bytes \<Rightarrow> (bytes \<times> bytes) option" where
  "decodeBytes buf =
     (case decodeUint buf of
        None \<Rightarrow> None
      | Some (x, rest) \<Rightarrow>
          (let n = unat x in
           if length rest < n \<or> tooBig \<le> n then None
           else Some (take n rest, drop n rest)))"

definition valid_int :: "int \<Rightarrow> bool" where
  "valid_int i \<longleftrightarrow> - (2 ^ 63) \<le> i \<and> i < 2 ^ 63"

lemma zigzag_bound: "valid_int i \<Longrightarrow> zigzag i < 2 ^ 64"
  unfolding zigzag_def valid_int_def by auto

lemma unzigzag:
  "(if odd (zigzag i) then - int (zigzag i div 2) - 1 else int (zigzag i div 2)) = i"
  by (simp add: zigzag_def)

lemma decodeInt_encodeInt:
  assumes "valid_int i"
  shows "decodeInt (encodeInt i @ rest) = Some (i, rest)"
proof -
  have "unat (of_nat (zigzag i) :: 64 word) = zigzag i"
    using zigzag_bound [OF assms] by (simp add: unat_of_nat)
  then show ?thesis
    using unzigzag [of i]
    by (simp add: encodeInt_def decodeInt_def decodeUint_encodeUint split: if_splits)
qed

lemma decodeBytes_encodeBytes:
  assumes "length v < tooBig"
  shows "decodeBytes (encodeBytes v @ rest) = Some (v, rest)"
proof -
  have "length v < 2 ^ 64" using assms by (simp add: tooBig_def)
  then have "unat (of_nat (length v) :: 64 word) = length v" by (simp add: unat_of_nat)
  then show ?thesis
    using assms by (simp add: decodeBytes_def encodeBytes_def decodeUint_encodeUint)
qed


subsection \<open>The entry codec\<close>

text \<open>
  \<^verbatim>\<open>Response.Bytes\<close> runs a fresh gob encoder on the entry and
  \<^verbatim>\<open>BytesToResponse\<close> a fresh gob decoder on the bytes; both drop the error gob
  returns. The model is gob's wire format for this struct.

  A stream is a sequence of messages, each its length followed by its content. The content
  starts with a type id. A negative id opens the description of the type with that id,
  negated; an id that is not negative opens a value of that type. A fresh encoder describes
  a type before the first value of it: the struct \<^verbatim>\<open>Response\<close> with the names and
  types of its four fields, then \<^verbatim>\<open>time.Time\<close>, which encodes itself
  (\<^verbatim>\<open>GobEncoder\<close>). A description is a value of gob's own struct
  \<^verbatim>\<open>wireType\<close>, sent as any struct is.

  A struct is sent field by field: the distance from the field sent before it, then the
  value; a field holding the zero value of its type is not sent, and a zero distance ends
  the struct.

  gob numbers the types of a program in the order in which it first meets them, from 64
  on (current Go releases). The ids are fixed here at 64 for \<^verbatim>\<open>Response\<close> and 65
  for \<^verbatim>\<open>time.Time\<close>, the ids of a program that has used gob for no other type
  before.
\<close>

datatype gob_error =
  EOF | ErrUnexpectedEOF | ErrCorrupt | ErrBadType | ErrDuplicateType | ErrRange

definition Response_typeId :: int where
  "Response_typeId = 64"

definition Time_typeId :: int where
  "Time_typeId = 65"

definition tInt :: int where
  "tInt = 2"

definition tBytes :: int where
  "tBytes = 5"

definition message :: "bytes \<Rightarrow> bytes" where
  "message content = encodeUint (of_nat (length content)) @ content"

definition encodeString :: "string \<Rightarrow> bytes" where
  "encodeString s = encodeUint (of_nat (length s)) @ map (\<lambda>c. of_nat (of_char c)) s"

text \<open>
  \<^verbatim>\<open>CommonType\<close> and \<^verbatim>\<open>fieldType\<close> are structs of a name (field 0) and a type id
  (field 1). \<^verbatim>\<open>wireType\<close> holds a \<^verbatim>\<open>structType\<close> in its field 2 and a
  \<^verbatim>\<open>gobEncoderType\<close> in its field 4; a \<^verbatim>\<open>structType\<close> is a
  \<^verbatim>\<open>CommonType\<close> (field 0) and the slice of its fields (field 1), a
  \<^verbatim>\<open>gobEncoderType\<close> is a \<^verbatim>\<open>CommonType\<close>.
\<close>

definition commonType :: "string \<Rightarrow> int \<Rightarrow> bytes" where
  "commonType name tid = [1] @ encodeString name @ [1] @ encodeInt tid @ [0]"

definition fieldType :: "string \<times> int \<Rightarrow> bytes" where
  "fieldType f = [1] @ encodeString (fst f) @ [1] @ encodeInt (snd f) @ [0]"

definition wire_struct :: "string \<Rightarrow> int \<Rightarrow> (string \<times> int) list \<Rightarrow> bytes" where
  "wire_struct name tid fs =
     [3] @ [1] @ commonType name tid
         @ [1] @ encodeUint (of_nat (length fs)) @ concat (map fieldType fs) @ [0]
     @ [0]"

definition wire_gobEncoder :: "string \<Rightarrow> int \<Rightarrow> bytes" where
  "wire_gobEncoder name tid = [5] @ [1] @ commonType name tid @ [0] @ [0]"

definition Response_wire :: bytes where
  "Response_wire =
     wire_struct ''Response'' Response_typeId
       [(''Value'', tBytes), (''Expiration'', Time_typeId), (''LastAccess'', Time_typeId),
        (''Frequency'', tInt)]"

definition Time_wire :: bytes where
  "Time_wire = wire_gobEncoder ''Time'' Time_typeId"

definition typeDescriptors :: bytes where
  "typeDescriptors =
     message (encodeInt (- Response_typeId) @ Response_wire)
     @ message (encodeInt (- Time_typeId) @ Time_wire)"

text \<open>
  The fields of a value. A time is sent as the bytes of \<^verbatim>\<open>MarshalBinary\<close>; when
  that fails, the encoder gives up the value.
\<close>

definition encodeTime :: "Time \<Rightarrow> bytes option" where
  "encodeTime t =
     (case time_MarshalBinary t of None \<Rightarrow> None | Some d \<Rightarrow> Some (encodeBytes d))"

definition sendField ::
  "(int \<times> bytes) option \<Rightarrow> int \<Rightarrow> bool \<Rightarrow> bytes option \<Rightarrow> (int \<times> bytes) option" where
  "sendField st i isZero enc =
     (case st of
        None \<Rightarrow> None
      | Some (fieldnum, out) \<Rightarrow>
          if isZero then Some (fieldnum, out)
          else
            (case enc of
               None \<Rightarrow> None
             | Some e \<Rightarrow> Some (i, out @ encodeUint (of_nat (nat (i - fieldnum))) @ e)))"

definition encodeStruct :: "Response \<Rightarrow> bytes option" where
  "encodeStruct r =
     (let s0 = Some (- 1, []);
          s1 = sendField s0 0 (Value r = []) (Some (encodeBytes (Value r)));
          s2 = sendField s1 1 (Expiration r = zero_Time) (encodeTime (Expiration r));
          s3 = sendField s2 2 (LastAccess r = zero_Time) (encodeTime (LastAccess r));
          s4 = sendField s3 3 (Frequency r = 0) (Some (encodeInt (Frequency r)))
      in case s4 of None \<Rightarrow> None | Some (fieldnum, out) \<Rightarrow> Some (out @ [0]))"

text \<open>
  \<^verbatim>\<open>Encode\<close> writes the descriptions first and the value after them. When the value
  cannot be encoded, or its message has \<open>tooBig\<close> bytes or more, nothing is written for
  the value, and \<^verbatim>\<open>Bytes\<close> returns the descriptions alone.
\<close>

definition encodeValue :: "Response \<Rightarrow> bytes option" where
  "encodeValue r =
     (case encodeStruct r of
        None \<Rightarrow> None
      | Some body \<Rightarrow>
          (let content = encodeInt Response_typeId @ body in
           if tooBig \<le> length content then None else Some (message content)))"

definition Bytes :: "Response \<Rightarrow> bytes" where
  "Bytes r = typeDescriptors @ (case encodeValue r of None \<Rightarrow> [] | Some m \<Rightarrow> m)"

definition decodeTime :: "bytes \<Rightarrow> (Time \<times> bytes) option" where
  "decodeTime buf =
     (case decodeBytes buf of
        None \<Rightarrow> None
      | Some (d, rest) \<Rightarrow>
          (case time_UnmarshalBinary d of None \<Rightarrow> None | Some t \<Rightarrow> Some (t, rest)))"

definition decodeField :: "int \<Rightarrow> bytes \<Rightarrow> Response \<Rightarrow> (Response \<times> bytes) option" where
  "decodeField f buf r =
     (if f = 0 then
        (case decodeBytes buf of None \<Rightarrow> None | Some (v, rest) \<Rightarrow> Some (r\<lparr>Value := v\<rparr>, rest))
      else if f = 1 then
        (case decodeTime buf of None \<Rightarrow> None | Some (t, rest) \<Rightarrow> Some (r\<lparr>Expiration := t\<rparr>, rest))
      else if f = 2 then
        (case decodeTime buf of None \<Rightarrow> None | Some (t, rest) \<Rightarrow> Some (r\<lparr>LastAccess := t\<rparr>, rest))
      else
        (case decodeInt buf of None \<Rightarrow> None | Some (i, rest) \<Rightarrow> Some (r\<lparr>Frequency := i\<rparr>, rest)))"

text \<open>Every decoder consumes input, which is why the loops of the decoder end.\<close>

lemma decodeUint_length: "decodeUint buf = Some (x, rest) \<Longrightarrow> length rest < length buf"
  by (cases buf) (auto simp: Let_def split: if_splits)

lemma decodeInt_length: "decodeInt buf = Some (x, rest) \<Longrightarrow> length rest < length buf"
  by (auto simp: decodeInt_def split: option.splits dest: decodeUint_length)

lemma decodeBytes_length: "decodeBytes buf = Some (x, rest) \<Longrightarrow> length rest < length buf"
  by (auto simp: decodeBytes_def Let_def split: option.splits if_splits dest!: decodeUint_length)

lemma decodeField_length:
  "decodeField f buf r = Some (r', rest) \<Longrightarrow> length rest < length buf"
  by (auto simp: decodeField_def decodeTime_def split: option.splits if_splits
      dest: decodeBytes_length decodeInt_length)

text \<open>
  The loop of gob's \<^verbatim>\<open>decodeStruct\<close>: it runs while bytes are left, stops at a
  zero distance, and fails on a field number beyond the four fields of the struct. The
  decoder stores each field into the entry as soon as it has decoded it; when it fails
  later in the message, the fields stored so far stay.
\<close>

function decodeStruct :: "int \<Rightarrow> bytes \<Rightarrow> Response \<Rightarrow> Response \<times> gob_error option" where
  "decodeStruct fieldnum buf r =
     (if buf = [] then (r, None)
      else
        (case decodeUint buf of
           None \<Rightarrow> (r, Some ErrCorrupt)
         | Some (delta, buf1) \<Rightarrow>
             if delta = 0 then (r, None)
             else if 4 - int (unat delta) \<le> fieldnum then (r, Some ErrRange)
             else
               (case decodeField (fieldnum + int (unat delta)) buf1 r of
                  None \<Rightarrow> (r, Some ErrCorrupt)
                | Some (r1, buf2) \<Rightarrow> decodeStruct (fieldnum + int (unat delta)) buf2 r1)))"
  by pat_completeness auto
termination
proof (relation "measure (\<lambda>(fieldnum, buf, r). length buf)")
  show "wf (measure (\<lambda>(fieldnum, buf, r). length buf))" by simp
next
  fix fieldnum :: int and buf :: bytes and r :: Response and x2 delta buf1 x2a r1 buf2
  assume "decodeUint buf = Some x2" "(delta, buf1) = x2"
    "decodeField (fieldnum + int (unat delta)) buf1 r = Some x2a" "(r1, buf2) = x2a"
  then have "length buf1 < length buf" "length buf2 < length buf1"
    by (auto dest: decodeUint_length decodeField_length)
  then show "((fieldnum + int (unat delta), buf2, r1), fieldnum, buf, r)
      \<in> measure (\<lambda>(fieldnum, buf, r). length buf)"
    by simp
qed

declare decodeStruct.simps [simp del]

text \<open>
  \<^verbatim>\<open>recvMessage\<close> reads the length of a message and then that many bytes.
\<close>

definition recvMessage :: "bytes \<Rightarrow> gob_error + bytes \<times> bytes" where
  "recvMessage b =
     (case decodeUint b of
        None \<Rightarrow> Inl (if b = [] then EOF else ErrUnexpectedEOF)
      | Some (nbytes, rest) \<Rightarrow>
          if tooBig \<le> unat nbytes then Inl ErrCorrupt
          else if length rest < unat nbytes then Inl ErrUnexpectedEOF
          else Inr (take (unat nbytes) rest, drop (unat nbytes) rest))"

lemma recvMessage_length:
  "recvMessage b = Inr (msg, rest) \<Longrightarrow> length rest < length b"
  by (auto simp: recvMessage_def split: option.splits if_splits dest!: decodeUint_length)

text \<open>
  \<^verbatim>\<open>decodeTypeSequence\<close> reads messages until one opens a value, and keeps the
  types described on the way (\<open>sR\<close> for \<^verbatim>\<open>Response\<close>, \<open>sT\<close> for
  \<^verbatim>\<open>time.Time\<close>). A type may be described once. The end of the input is
  \<^verbatim>\<open>io.EOF\<close> before the first message and \<^verbatim>\<open>io.ErrUnexpectedEOF\<close> after a
  description.

  The decoder of the model knows the two descriptions that this program writes. A
  description of another type, or another description of these two, does not occur in a
  record that \<^verbatim>\<open>Bytes\<close> has written; the model reports \<open>ErrBadType\<close> for it and
  does not follow gob further there. A type id is an \<^verbatim>\<open>int32\<close>, and the decoder
  converts the integer it has read to it.
\<close>

definition typeId :: "int \<Rightarrow> int" where
  "typeId i = (i + 2 ^ 31) mod 2 ^ 32 - 2 ^ 31"

function decodeTypeSequence ::
  "bool \<Rightarrow> bool \<Rightarrow> bool \<Rightarrow> bytes \<Rightarrow> gob_error + bool \<times> bool \<times> int \<times> bytes" where
  "decodeTypeSequence firstMessage sR sT b =
     (case recvMessage b of
        Inl e \<Rightarrow> Inl (if \<not> firstMessage \<and> e = EOF then ErrUnexpectedEOF else e)
      | Inr (msg, rest) \<Rightarrow>
          (case decodeInt msg of
             None \<Rightarrow> Inl ErrCorrupt
           | Some (i, body) \<Rightarrow>
               if 0 \<le> typeId i then Inr (sR, sT, typeId i, body)
               else if - typeId i < 64 then Inl ErrDuplicateType
               else if - typeId i = Response_typeId then
                 (if sR then Inl ErrDuplicateType
                  else if body = Response_wire then decodeTypeSequence False True sT rest
                  else Inl ErrBadType)
               else if - typeId i = Time_typeId then
                 (if sT then Inl ErrDuplicateType
                  else if body = Time_wire then decodeTypeSequence False sR True rest
                  else Inl ErrBadType)
               else Inl ErrBadType))"
  by pat_completeness auto
termination
proof (relation "measure (\<lambda>(firstMessage, sR, sT, b). length b)")
  show "wf (measure (\<lambda>(firstMessage, sR, sT, b). length b))" by simp
qed (auto dest: recvMessage_length)

declare decodeTypeSequence.simps [simp del]

text \<open>
  \<^verbatim>\<open>Decode\<close>: the value must be of a type that has been described as a struct, and
  the type of its time fields must have been described as well; the decoder checks both
  before it stores a field. For a value of another type the model reports
  \<open>ErrBadType\<close>; gob reads and skips a value of one of the struct types it describes
  its types with, and stores no field either. Bytes after the message of the value are not
  read.
\<close>

definition gob_Decode :: "bytes \<Rightarrow> Response \<Rightarrow> Response \<times> gob_error option" where
  "gob_Decode b r =
     (case decodeTypeSequence True False False b of
        Inl e \<Rightarrow> (r, Some e)
      | Inr (sR, sT, tid, body) \<Rightarrow>
          if tid = Response_typeId \<and> sR \<and> sT then decodeStruct (- 1) body r
          else (r, Some ErrBadType))"

definition BytesToResponse :: "bytes \<Rightarrow> Response" where
  "BytesToResponse b = fst (gob_Decode b zero_Response)"

text \<open>The descriptions, byte by byte.\<close>

lemma typeDescriptors_bytes:
  "typeDescriptors =
     [0x4D, 0x7F, 0x03, 0x01, 0x01, 0x08, 0x52, 0x65, 0x73, 0x70, 0x6F, 0x6E, 0x73, 0x65,
      0x01, 0xFF, 0x80, 0x00, 0x01, 0x04,
      0x01, 0x05, 0x56, 0x61, 0x6C, 0x75, 0x65, 0x01, 0x0A, 0x00,
      0x01, 0x0A, 0x45, 0x78, 0x70, 0x69, 0x72, 0x61, 0x74, 0x69, 0x6F, 0x6E, 0x01, 0xFF,
      0x82, 0x00,
      0x01, 0x0A, 0x4C, 0x61, 0x73, 0x74, 0x41, 0x63, 0x63, 0x65, 0x73, 0x73, 0x01, 0xFF,
      0x82, 0x00,
      0x01, 0x09, 0x46, 0x72, 0x65, 0x71, 0x75, 0x65, 0x6E, 0x63, 0x79, 0x01, 0x04, 0x00,
      0x00, 0x00,
      0x10, 0xFF, 0x81, 0x05, 0x01, 0x01, 0x04, 0x54, 0x69, 0x6D, 0x65, 0x01, 0xFF, 0x82,
      0x00, 0x00, 0x00]"
  by (simp add: typeDescriptors_def message_def Response_wire_def Time_wire_def
      wire_struct_def wire_gobEncoder_def commonType_def fieldType_def encodeString_def
      encodeInt_def zigzag_def encodeUint_def Response_typeId_def Time_typeId_def tInt_def
      tBytes_def bytelen.simps)


text \<open>
  A valid entry is one Go can hold and gob can send: its times are representable and in a
  zone that \<^verbatim>\<open>MarshalBinary\<close> accepts, its frequency is a 64-bit integer and its
  message is below gob's bound.
\<close>

definition valid_Response :: "Response \<Rightarrow> bool" where
  "valid_Response r \<longleftrightarrow>
     valid_time (Expiration r) \<and> valid_time (LastAccess r) \<and> valid_int (Frequency r) \<and>
     (case encodeStruct r of
        None \<Rightarrow> False
      | Some body \<Rightarrow> length (encodeInt Response_typeId @ body) < tooBig)"

lemma encodeUint_not_Nil [simp]: "encodeUint x \<noteq> []"
  by (simp add: encodeUint_def Let_def)

lemma length_encodeUint: "length (encodeUint x) \<le> 9"
  using bytelen_word64 [of x] by (simp add: encodeUint_def Let_def)

lemma length_encodeBytes: "length (encodeBytes v) \<le> 9 + length v"
  using length_encodeUint [of "of_nat (length v)"] by (simp add: encodeBytes_def)

lemma length_encodeInt: "length (encodeInt i) \<le> 9"
  by (simp add: encodeInt_def length_encodeUint)

lemma length_Value_encodeStruct:
  "encodeStruct r = Some body \<Longrightarrow> length (Value r) \<le> length body"
  by (auto simp: encodeStruct_def Let_def sendField_def encodeBytes_def
      split: option.splits if_splits)

lemma decodeStruct_end: "decodeStruct fn (0 # rest) r = (r, None)"
  by (subst decodeStruct.simps) simp

lemma decodeStruct_field:
  assumes "fn < f" "f \<le> 3" "- 1 \<le> fn"
    and "decodeField f (enc @ rest) r = Some (r', rest)"
  shows "decodeStruct fn (encodeUint (of_nat (nat (f - fn))) @ enc @ rest) r
         = decodeStruct f rest r'"
proof -
  define d where "d = nat (f - fn)"
  have d: "0 < d" "d \<le> 4" "int d = f - fn" using assms(1-3) by (simp_all add: d_def)
  then have u: "unat (of_nat d :: 64 word) = d" by (simp add: unat_of_nat)
  then have nz: "(of_nat d :: 64 word) \<noteq> 0" using d(1) by (metis less_numeral_extra(3) unat_0)
  have f: "fn + int d = f" using d by simp
  have r: "\<not> 4 - int d \<le> fn" using d assms by simp
  show ?thesis
    unfolding d_def [symmetric]
    by (subst decodeStruct.simps)
       (simp add: decodeUint_encodeUint u nz f r assms(4))
qed

lemma decodeField_Value:
  "length v < tooBig \<Longrightarrow> decodeField 0 (encodeBytes v @ rest) r = Some (r\<lparr>Value := v\<rparr>, rest)"
  by (simp add: decodeField_def decodeBytes_encodeBytes)

lemma encodeTime_valid:
  assumes "valid_time t"
  shows "\<exists>e. encodeTime t = Some e \<and> length e \<le> 16 \<and>
             (\<forall>rest. decodeTime (e @ rest) = Some (t, rest))"
proof -
  obtain d where d: "time_MarshalBinary t = Some d" "length d = 15"
      "time_UnmarshalBinary d = Some t"
    using time_UnmarshalBinary_MarshalBinary [OF assms] by blast
  have "decodeTime (encodeBytes d @ rest) = Some (t, rest)" for rest
    using d by (simp add: decodeTime_def decodeBytes_encodeBytes tooBig_def)
  moreover have "length (encodeBytes d) \<le> 16"
    using d(2) by (simp add: encodeBytes_def encodeUint_def)
  ultimately show ?thesis using d(1) by (simp add: encodeTime_def)
qed

lemma decodeField_Expiration:
  "decodeTime (e @ rest) = Some (t, rest) \<Longrightarrow>
   decodeField 1 (e @ rest) r = Some (r\<lparr>Expiration := t\<rparr>, rest)"
  by (simp add: decodeField_def)

lemma decodeField_LastAccess:
  "decodeTime (e @ rest) = Some (t, rest) \<Longrightarrow>
   decodeField 2 (e @ rest) r = Some (r\<lparr>LastAccess := t\<rparr>, rest)"
  by (simp add: decodeField_def)

lemma decodeField_Frequency:
  "valid_int i \<Longrightarrow> decodeField 3 (encodeInt i @ rest) r = Some (r\<lparr>Frequency := i\<rparr>, rest)"
  by (simp add: decodeField_def decodeInt_encodeInt)

text \<open>One step of the encoder's loop, seen from the decoder.\<close>

lemma sendField_sim:
  assumes inv: "\<And>rest. decodeStruct (- 1) (out @ rest) r0 = decodeStruct fn rest r1"
    and fn: "- 1 \<le> fn" "fn < i" "i \<le> 3"
    and enc: "\<not> isZero \<Longrightarrow> enc = Some e"
    and dec: "\<And>rest. \<not> isZero \<Longrightarrow> decodeField i (e @ rest) r1 = Some (r2, rest)"
    and zero: "isZero \<Longrightarrow> r2 = r1"
  shows "\<exists>out'. sendField (Some (fn, out)) i isZero enc
                  = Some (if isZero then fn else i, out') \<and>
           length out \<le> length out' \<and> (\<not> isZero \<longrightarrow> length e \<le> length out') \<and>
           length out' \<le> length out + (if isZero then 0 else 9 + length e) \<and>
           (\<forall>rest. decodeStruct (- 1) (out' @ rest) r0
                    = decodeStruct (if isZero then fn else i) rest r2)"
proof (cases isZero)
  case True
  then show ?thesis using inv zero by (simp add: sendField_def)
next
  case False
  define out' where "out' = out @ encodeUint (of_nat (nat (i - fn))) @ e"
  have s: "sendField (Some (fn, out)) i isZero enc = Some (i, out')"
    using False enc by (simp add: sendField_def out'_def)
  have "decodeStruct (- 1) (out' @ rest) r0 = decodeStruct i rest r2" for rest
  proof -
    have "decodeStruct (- 1) (out @ encodeUint (of_nat (nat (i - fn))) @ e @ rest) r0
          = decodeStruct fn (encodeUint (of_nat (nat (i - fn))) @ e @ rest) r1"
      by (rule inv)
    also have "\<dots> = decodeStruct i rest r2"
      using fn dec [OF False] by (intro decodeStruct_field) simp_all
    finally show ?thesis by (simp add: out'_def)
  qed
  moreover have "length (encodeUint (of_nat (nat (i - fn)))) \<le> 9"
    by (rule length_encodeUint)
  ultimately show ?thesis using False s by (simp add: out'_def)
qed

text \<open>
  The encoder succeeds on an entry with valid times, and the decoder's loop reads from
  the fields it wrote the entry it was given.
\<close>

lemma encodeStruct_valid:
  assumes v: "valid_time (Expiration r)" "valid_time (LastAccess r)" "valid_int (Frequency r)"
    and lv: "length (Value r) < tooBig"
  shows "\<exists>body. encodeStruct r = Some body \<and> length (Value r) \<le> length body \<and>
           length body \<le> length (Value r) + 88 \<and>
           (\<forall>rest. decodeStruct (- 1) (body @ rest) zero_Response = (r, None))"
proof -
  define r1 where "r1 = zero_Response\<lparr>Value := Value r\<rparr>"
  define r2 where "r2 = r1\<lparr>Expiration := Expiration r\<rparr>"
  define r3 where "r3 = r2\<lparr>LastAccess := LastAccess r\<rparr>"
  define z1 where "z1 \<longleftrightarrow> Value r = []"
  define z2 where "z2 \<longleftrightarrow> Expiration r = zero_Time"
  define z3 where "z3 \<longleftrightarrow> LastAccess r = zero_Time"
  define z4 where "z4 \<longleftrightarrow> Frequency r = 0"
  define f1 :: int where "f1 = (if z1 then - 1 else 0)"
  define f2 :: int where "f2 = (if z2 then f1 else 1)"
  define f3 :: int where "f3 = (if z3 then f2 else 2)"
  define f4 :: int where "f4 = (if z4 then f3 else 3)"
  obtain e2 where e2: "encodeTime (Expiration r) = Some e2" "length e2 \<le> 16"
      "\<And>rest. decodeTime (e2 @ rest) = Some (Expiration r, rest)"
    using encodeTime_valid [OF v(1)] by blast
  obtain e3 where e3: "encodeTime (LastAccess r) = Some e3" "length e3 \<le> 16"
      "\<And>rest. decodeTime (e3 @ rest) = Some (LastAccess r, rest)"
    using encodeTime_valid [OF v(2)] by blast
  have le1: "length (encodeBytes (Value r)) \<le> length (Value r) + 9"
    using length_encodeBytes [of "Value r"] by simp
  have le4: "length (encodeInt (Frequency r)) \<le> 9"
    by (rule length_encodeInt)
  have i0: "decodeStruct (- 1) ([] @ rest) zero_Response
            = decodeStruct (- 1) rest zero_Response" for rest
    by simp
  obtain o1 where s1:
      "sendField (Some (- 1, [])) 0 z1 (Some (encodeBytes (Value r))) = Some (f1, o1)"
      "\<not> z1 \<longrightarrow> length (encodeBytes (Value r)) \<le> length o1"
      "length o1 \<le> length ([] :: bytes) + (if z1 then 0 else 9 + length (encodeBytes (Value r)))"
      "\<And>rest. decodeStruct (- 1) (o1 @ rest) zero_Response = decodeStruct f1 rest r1"
    unfolding f1_def
    using sendField_sim [OF i0, of 0 z1 "Some (encodeBytes (Value r))"
        "encodeBytes (Value r)" r1]
    by (auto simp: decodeField_Value lv r1_def z1_def zero_Response_def)
  have b1: "- 1 \<le> f1" "f1 < 1" by (simp_all add: f1_def)
  obtain o2 where s2:
      "sendField (Some (f1, o1)) 1 z2 (encodeTime (Expiration r)) = Some (f2, o2)"
      "length o1 \<le> length o2"
      "length o2 \<le> length o1 + (if z2 then 0 else 9 + length e2)"
      "\<And>rest. decodeStruct (- 1) (o2 @ rest) zero_Response = decodeStruct f2 rest r2"
    unfolding f2_def
    using sendField_sim [OF s1(4) b1, of z2 "encodeTime (Expiration r)" e2 r2]
    by (auto simp: decodeField_Expiration e2 r2_def r1_def z2_def zero_Response_def)
  have b2: "- 1 \<le> f2" "f2 < 2" using b1 by (simp_all add: f2_def)
  obtain o3 where s3:
      "sendField (Some (f2, o2)) 2 z3 (encodeTime (LastAccess r)) = Some (f3, o3)"
      "length o2 \<le> length o3"
      "length o3 \<le> length o2 + (if z3 then 0 else 9 + length e3)"
      "\<And>rest. decodeStruct (- 1) (o3 @ rest) zero_Response = decodeStruct f3 rest r3"
    unfolding f3_def
    using sendField_sim [OF s2(4) b2, of z3 "encodeTime (LastAccess r)" e3 r3]
    by (auto simp: decodeField_LastAccess e3 r3_def r2_def r1_def z3_def zero_Response_def)
  have b3: "- 1 \<le> f3" "f3 < 3" using b2 by (simp_all add: f3_def)
  obtain o4 where s4:
      "sendField (Some (f3, o3)) 3 z4 (Some (encodeInt (Frequency r))) = Some (f4, o4)"
      "length o3 \<le> length o4"
      "length o4 \<le> length o3 + (if z4 then 0 else 9 + length (encodeInt (Frequency r)))"
      "\<And>rest. decodeStruct (- 1) (o4 @ rest) zero_Response = decodeStruct f4 rest r"
    unfolding f4_def
    using sendField_sim [OF s3(4) b3, of z4 "Some (encodeInt (Frequency r))"
        "encodeInt (Frequency r)" r]
    by (auto simp: decodeField_Frequency v r3_def r2_def r1_def z4_def zero_Response_def)
  have E: "encodeStruct r = Some (o4 @ [0])"
    by (simp add: encodeStruct_def Let_def s1(1) s2(1) s3(1) s4(1)
        z1_def [symmetric] z2_def [symmetric] z3_def [symmetric] z4_def [symmetric])
  have "length (Value r) \<le> length o1"
    using s1(2) by (cases z1) (simp_all add: z1_def encodeBytes_def)
  then have lo: "length (Value r) \<le> length (o4 @ [0])"
    using s2(2) s3(2) s4(2) by simp
  have "length o1 \<le> length (Value r) + 18"
    using s1(3) le1 by (simp split: if_splits)
  moreover have "length o2 \<le> length o1 + 25" using s2(3) e2(2) by (simp split: if_splits)
  moreover have "length o3 \<le> length o2 + 25" using s3(3) e3(2) by (simp split: if_splits)
  moreover have "length o4 \<le> length o3 + 18" using s4(3) le4 by (simp split: if_splits)
  ultimately have up: "length (o4 @ [0]) \<le> length (Value r) + 88" by simp
  have "decodeStruct (- 1) ((o4 @ [0]) @ rest) zero_Response = (r, None)" for rest
    using s4(4) [of "0 # rest"] by (simp add: decodeStruct_end)
  then show ?thesis using E lo up by blast
qed

lemma valid_Response_encodeStruct:
  assumes "valid_Response r"
  shows "\<exists>body. encodeStruct r = Some body \<and>
           length (encodeInt Response_typeId @ body) < tooBig \<and>
           (\<forall>rest. decodeStruct (- 1) (body @ rest) zero_Response = (r, None))"
proof -
  obtain body where b: "encodeStruct r = Some body"
      "length (encodeInt Response_typeId @ body) < tooBig"
    using assms by (auto simp: valid_Response_def split: option.splits)
  have v: "valid_time (Expiration r)" "valid_time (LastAccess r)" "valid_int (Frequency r)"
    using assms by (simp_all add: valid_Response_def)
  have "length (Value r) < tooBig \<or> tooBig \<le> length (Value r)" by linarith
  then show ?thesis
  proof
    assume "length (Value r) < tooBig"
    from encodeStruct_valid [OF v this] b show ?thesis by auto
  next
    assume "tooBig \<le> length (Value r)"
    then have False using length_Value_encodeStruct [OF b(1)] b(2) by simp
    then show ?thesis ..
  qed
qed

text \<open>What the decoder makes of the messages that \<^verbatim>\<open>Bytes\<close> writes.\<close>

lemma recvMessage_message:
  assumes "length c < tooBig"
  shows "recvMessage (message c @ rest) = Inr (c, rest)"
proof -
  have "length c < 2 ^ 64" using assms by (simp add: tooBig_def)
  then have u: "unat (of_nat (length c) :: 64 word) = length c"
    by (simp add: unat_of_nat)
  show ?thesis using assms by (simp add: recvMessage_def message_def decodeUint_encodeUint u)
qed

lemma length_Response_wire: "length (encodeInt (- Response_typeId) @ Response_wire) = 77"
  by (simp add: Response_wire_def wire_struct_def commonType_def fieldType_def
      encodeString_def encodeInt_def zigzag_def encodeUint_def Response_typeId_def
      Time_typeId_def tInt_def tBytes_def bytelen.simps)

lemma length_Time_wire: "length (encodeInt (- Time_typeId) @ Time_wire) = 16"
  by (simp add: Time_wire_def wire_gobEncoder_def commonType_def
      encodeString_def encodeInt_def zigzag_def encodeUint_def Time_typeId_def bytelen.simps)

lemma decodeTypeSequence_Response:
  "decodeTypeSequence fm False sT
     (message (encodeInt (- Response_typeId) @ Response_wire) @ rest)
   = decodeTypeSequence False True sT rest"
proof -
  have r: "recvMessage (message (encodeInt (- Response_typeId) @ Response_wire) @ rest)
           = Inr (encodeInt (- Response_typeId) @ Response_wire, rest)"
    by (rule recvMessage_message) (simp only: length_Response_wire tooBig_def, simp)
  have d: "decodeInt (encodeInt (- Response_typeId) @ Response_wire)
           = Some (- Response_typeId, Response_wire)"
    by (rule decodeInt_encodeInt) (simp add: Response_typeId_def valid_int_def)
  show ?thesis
    by (subst decodeTypeSequence.simps)
       (simp add: r d, simp add: Response_typeId_def typeId_def)
qed

lemma decodeTypeSequence_Time:
  "decodeTypeSequence fm sR False (message (encodeInt (- Time_typeId) @ Time_wire) @ rest)
   = decodeTypeSequence False sR True rest"
proof -
  have r: "recvMessage (message (encodeInt (- Time_typeId) @ Time_wire) @ rest)
           = Inr (encodeInt (- Time_typeId) @ Time_wire, rest)"
    by (rule recvMessage_message) (simp only: length_Time_wire tooBig_def, simp)
  have d: "decodeInt (encodeInt (- Time_typeId) @ Time_wire) = Some (- Time_typeId, Time_wire)"
    by (rule decodeInt_encodeInt) (simp add: Time_typeId_def valid_int_def)
  show ?thesis
    by (subst decodeTypeSequence.simps)
       (simp add: r d, simp add: Time_typeId_def Response_typeId_def typeId_def)
qed

lemma decodeTypeSequence_typeDescriptors:
  "decodeTypeSequence True False False (typeDescriptors @ rest)
   = decodeTypeSequence False True True rest"
  by (simp add: typeDescriptors_def decodeTypeSequence_Response decodeTypeSequence_Time)

lemma decodeTypeSequence_Nil: "decodeTypeSequence False sR sT [] = Inl ErrUnexpectedEOF"
  by (subst decodeTypeSequence.simps) (simp add: recvMessage_def)

lemma decodeTypeSequence_value:
  assumes "length (encodeInt Response_typeId @ body) < tooBig"
  shows "decodeTypeSequence fm sR sT (message (encodeInt Response_typeId @ body) @ rest)
         = Inr (sR, sT, Response_typeId, body)"
proof -
  have d: "decodeInt (encodeInt Response_typeId @ body) = Some (Response_typeId, body)"
    by (rule decodeInt_encodeInt) (simp add: Response_typeId_def valid_int_def)
  show ?thesis
    by (subst decodeTypeSequence.simps)
       (simp add: recvMessage_message [OF assms] d, simp add: Response_typeId_def typeId_def)
qed

lemma gob_Decode_typeDescriptors:
  "gob_Decode (typeDescriptors @ b) r =
     (case decodeTypeSequence False True True b of
        Inl e \<Rightarrow> (r, Some e)
      | Inr (sR, sT, tid, body) \<Rightarrow>
          if tid = Response_typeId \<and> sR \<and> sT then decodeStruct (- 1) body r
          else (r, Some ErrBadType))"
  by (simp add: gob_Decode_def decodeTypeSequence_typeDescriptors)

text \<open>
  When the encoder fails, the record is the two descriptions, and the decoder leaves the
  entry it was given as it is.
\<close>

lemma gob_Decode_Bytes_failed:
  "encodeValue r = None \<Longrightarrow> gob_Decode (Bytes r) r0 = (r0, Some ErrUnexpectedEOF)"
  using gob_Decode_typeDescriptors [of "[]" r0]
  by (simp add: Bytes_def decodeTypeSequence_Nil)

lemma gob_Decode_Bytes:
  assumes "valid_Response r"
  shows "gob_Decode (Bytes r @ rest) zero_Response = (r, None)"
proof -
  obtain body where b: "encodeStruct r = Some body"
      "length (encodeInt Response_typeId @ body) < tooBig"
      "\<And>rest. decodeStruct (- 1) (body @ rest) zero_Response = (r, None)"
    using valid_Response_encodeStruct [OF assms] by blast
  have B: "Bytes r @ rest
           = typeDescriptors @ message (encodeInt Response_typeId @ body) @ rest"
    using b(1,2) by (simp add: Bytes_def encodeValue_def Let_def)
  show ?thesis
    unfolding B gob_Decode_typeDescriptors decodeTypeSequence_value [OF b(2)]
    using b(3) [of "[]"] by simp
qed


subsection \<open>The store\<close>

text \<open>
  A reading of the clock: \<^verbatim>\<open>time.Now()\<close> is in the local zone. The runs below
  are on a machine whose local zone is at offset 0.
\<close>

definition clock :: "int \<Rightarrow> Time" where
  "clock n = \<lparr>instant = n, loc = Zone 0\<rparr>"

text \<open>\<^verbatim>\<open>Frequency++\<close> on a 64-bit \<^verbatim>\<open>int\<close>.\<close>

definition wrap_int64 :: "int \<Rightarrow> int" where
  "wrap_int64 i = (i + 2 ^ 63) mod 2 ^ 64 - 2 ^ 63"

type_synonym key = "64 word"
type_synonym Algorithm = string

definition LRU :: Algorithm where "LRU = ''LRU''"
definition MRU :: Algorithm where "MRU = ''MRU''"
definition LFU :: Algorithm where "LFU = ''LFU''"
definition MFU :: Algorithm where "MFU = ''MFU''"

record Adapter =
  capacity :: int
  algorithm :: Algorithm
  store :: "(key \<times> bytes) list"

text \<open>
  Modelled from the spec: \<^verbatim>\<open>cache.BytesToResponse\<close>, the decoder of the root
  package that \<^verbatim>\<open>evict\<close> calls; the root package is not among the sources. The
  spec has one entry codec, used uniformly: decode is the inverse of the encoding the store
  writes. So it is the decoder of this package (gob matches the fields of the two
  \<^verbatim>\<open>Response\<close> structs by name).
\<close>

definition cache_BytesToResponse :: "bytes \<Rightarrow> Response" where
  "cache_BytesToResponse b = BytesToResponse b"

definition Release :: "Adapter \<Rightarrow> key \<Rightarrow> Adapter" where
  "Release a k =
     (case map_of (store a) k of
        None \<Rightarrow> a
      | Some _ \<Rightarrow> a\<lparr>store := AList.delete k (store a)\<rparr>)"

definition Purge :: "Adapter \<Rightarrow> Adapter" where
  "Purge a = a\<lparr>store := []\<rparr>"

text \<open>
  \<^verbatim>\<open>evict\<close>: the candidate starts as key 0 with the clock reading (the zero time
  for MRU) and the frequency 2147483647 (0 for MFU); the scan visits the entries in the order
  \<open>trav\<close>; the key that is selected at the end is released, also when it is still the
  initial 0.
\<close>

definition evict_init :: "Algorithm \<Rightarrow> Time \<Rightarrow> key \<times> Time \<times> int" where
  "evict_init alg now =
     (0,
      if alg = MRU then zero_Time else now,
      if alg \<noteq> MRU \<and> alg = MFU then 0 else 2147483647)"

definition evict_step :: "Algorithm \<Rightarrow> key \<times> Time \<times> int \<Rightarrow> key \<times> bytes \<Rightarrow> key \<times> Time \<times> int" where
  "evict_step alg st kv =
     (case st of (selectedKey, lastAccess, frequency) \<Rightarrow>
      case kv of (k, v) \<Rightarrow>
        (let r = cache_BytesToResponse v in
         if alg = LRU then
           (if Before (LastAccess r) lastAccess then (k, LastAccess r, frequency) else st)
         else if alg = MRU then
           (if After (LastAccess r) lastAccess \<or> Equal (LastAccess r) lastAccess
            then (k, LastAccess r, frequency) else st)
         else if alg = LFU then
           (if Frequency r < frequency then (k, lastAccess, Frequency r) else st)
         else if alg = MFU then
           (if frequency \<le> Frequency r then (k, lastAccess, Frequency r) else st)
         else st))"

definition evict_select :: "Algorithm \<Rightarrow> Time \<Rightarrow> (key \<times> bytes) list \<Rightarrow> key" where
  "evict_select alg now trav = fst (foldl (evict_step alg) (evict_init alg now) trav)"

definition evict :: "Adapter \<Rightarrow> Time \<Rightarrow> (key \<times> bytes) list \<Rightarrow> Adapter" where
  "evict a now trav = Release a (evict_select (algorithm a) now trav)"

text \<open>
  \<^verbatim>\<open>Set\<close> reads the clock (\<open>now\<close>), and \<^verbatim>\<open>evict\<close> reads it again
  (\<open>evict_now\<close>). \<^verbatim>\<open>Get\<close> reads it twice, for the test of the expiration
  (\<open>now1\<close>) and for the new lastAccess (\<open>now2\<close>). \<^verbatim>\<open>nil\<close> is the empty list.
\<close>

definition Set :: "Adapter \<Rightarrow> key \<Rightarrow> bytes \<Rightarrow> Time \<Rightarrow> Time \<Rightarrow> Time \<Rightarrow> (key \<times> bytes) list \<Rightarrow> Adapter" where
  "Set a k response expiration now evict_now trav =
     (let res = \<lparr>Value = response, Expiration = expiration, LastAccess = now, Frequency = 1\<rparr>;
          len = int (length (store a));
          a1 = (if 0 < len \<and> len = capacity a then evict a evict_now trav else a)
      in a1\<lparr>store := AList.update k (Bytes res) (store a1)\<rparr>)"

definition Get :: "Adapter \<Rightarrow> key \<Rightarrow> Time \<Rightarrow> Time \<Rightarrow> (bytes \<times> bool) \<times> Adapter" where
  "Get a k now1 now2 =
     (case map_of (store a) k of
        None \<Rightarrow> (([], False), a)
      | Some res \<Rightarrow>
          (let response = BytesToResponse res in
           if After (Expiration response) now1 then
             (let response1 = response\<lparr>LastAccess := now2,
                                         Frequency := wrap_int64 (Frequency response + 1)\<rparr>
              in ((Value response1, True),
                  a\<lparr>store := AList.update k (Bytes response1) (store a)\<rparr>))
           else (([], False), Release a k)))"

text \<open>
  \<^verbatim>\<open>NewAdapter\<close> applies its options in order to the zero adapter and stops at the
  first one that fails.
\<close>

datatype AdapterOptions = AdapterWithAlgorithm Algorithm | AdapterWithCapacity int

datatype error = ErrCapacityGreaterThan int | ErrCapacityNotSet | ErrAlgorithmNotSet

fun apply_option :: "AdapterOptions \<Rightarrow> Adapter \<Rightarrow> error + Adapter" where
  "apply_option (AdapterWithAlgorithm alg) a = Inr (a\<lparr>algorithm := alg\<rparr>)"
| "apply_option (AdapterWithCapacity cap) a =
     (if cap \<le> 1 then Inl (ErrCapacityGreaterThan cap) else Inr (a\<lparr>capacity := cap\<rparr>))"

fun apply_options :: "AdapterOptions list \<Rightarrow> Adapter \<Rightarrow> error + Adapter" where
  "apply_options [] a = Inr a"
| "apply_options (opt # opts) a =
     (case apply_option opt a of Inl err \<Rightarrow> Inl err | Inr a1 \<Rightarrow> apply_options opts a1)"

definition NewAdapter :: "AdapterOptions list \<Rightarrow> error + Adapter" where
  "NewAdapter opts =
     (case apply_options opts \<lparr>capacity = 0, algorithm = [], store = []\<rparr> of
        Inl err \<Rightarrow> Inl err
      | Inr a \<Rightarrow>
          if capacity a \<le> 1 then Inl ErrCapacityNotSet
          else if algorithm a = [] then Inl ErrAlgorithmNotSet
          else Inr (a\<lparr>store := []\<rparr>))"

text \<open>
  A traversal of the store visits every entry once. A store is well formed when its keys
  are distinct: the list then is the map, and its length the map's size.
\<close>

definition traversal :: "(key \<times> bytes) list \<Rightarrow> Adapter \<Rightarrow> bool" where
  "traversal trav a \<longleftrightarrow> distinct (map fst trav) \<and> set trav = set (store a)"

definition wf_store :: "Adapter \<Rightarrow> bool" where
  "wf_store a \<longleftrightarrow> distinct (map fst (store a))"

lemma BytesToResponse_Bytes_eq: "valid_Response r \<Longrightarrow> BytesToResponse (Bytes r) = r"
  using gob_Decode_Bytes [of r "[]"] by (simp add: BytesToResponse_def)

lemma map_of_Release: "map_of (store (Release a k)) = (map_of (store a))(k := None)"
  by (auto simp: Release_def delete_conv' split: option.splits)

lemma map_of_evict:
  "map_of (store (evict a now trav)) = (map_of (store a))(evict_select (algorithm a) now trav := None)"
  by (simp add: evict_def map_of_Release)

lemma map_of_Set:
  "map_of (store (Set a k response expiration now evict_now trav)) =
     (if 0 < length (store a) \<and> int (length (store a)) = capacity a
      then (map_of (store a))(evict_select (algorithm a) evict_now trav := None)
      else map_of (store a))
     (k \<mapsto> Bytes \<lparr>Value = response, Expiration = expiration, LastAccess = now, Frequency = 1\<rparr>)"
  by (simp add: Set_def Let_def update_conv' map_of_evict)

lemma wf_store_Release: "wf_store a \<Longrightarrow> wf_store (Release a k)"
  by (auto simp: wf_store_def Release_def distinct_delete split: option.splits)

lemma wf_store_Set: "wf_store a \<Longrightarrow> wf_store (Set a k response expiration now evict_now trav)"
  by (auto simp: wf_store_def Set_def Let_def evict_def Release_def distinct_update distinct_delete
      split: option.splits)

lemma instant_clock [simp]: "instant (clock n) = n"
  by (simp add: clock_def)

lemma loc_clock [simp]: "loc (clock n) = Zone 0"
  by (simp add: clock_def)

lemma clock_eq [simp]: "clock m = clock n \<longleftrightarrow> m = n"
  by (simp add: clock_def)

lemma clock_not_zero [simp]: "clock n \<noteq> zero_Time"
  by (simp add: clock_def zero_Time_def)

lemma valid_time_clock:
  "- (2 ^ 63) \<le> n div 1000000000 \<Longrightarrow> n div 1000000000 < 2 ^ 63 \<Longrightarrow> valid_time (clock n)"
  by (simp add: valid_time_def valid_zone_def)


subsection \<open>Round trip\<close>

lemma valid_ResponseI:
  assumes "length (Value r) < 2 ^ 32" "valid_time (Expiration r)" "valid_time (LastAccess r)"
    "valid_int (Frequency r)"
  shows "valid_Response r"
proof -
  have "length (Value r) < tooBig" using assms(1) by (simp add: tooBig_def)
  from encodeStruct_valid [OF assms(2-4) this]
  obtain body where b: "encodeStruct r = Some body" "length body \<le> length (Value r) + 88"
    by blast
  have "length (encodeInt Response_typeId @ body) < tooBig"
    using length_encodeInt [of Response_typeId] b(2) assms(1) by (simp add: tooBig_def)
  then show ?thesis using assms b(1) by (simp add: valid_Response_def)
qed

text \<open>
  C5 (amended): for every entry whose two times are in UTC or in a zone at a whole number
  of minutes from UTC, other than one minute west of it and within 16 bits, whose frequency
  is a 64-bit integer and whose message is below gob's size limit, decoding the encoding
  gives back the entry: the same value bytes, the same two instants with the same zone
  offsets, and the same frequency.
\<close>

theorem Response_roundtrip:
  assumes "valid_Response e"
  shows "BytesToResponse (Bytes e) = e"
  using gob_Decode_Bytes [OF assms, of "[]"] by (simp add: BytesToResponse_def)

theorem Response_roundtrip_witness:
  "valid_Response \<lparr>Value = [104, 105], Expiration = clock 63900000000000000000,
       LastAccess = \<lparr>instant = 63800000000000000000, loc = UTC\<rparr>, Frequency = 3\<rparr>
   \<and> BytesToResponse (Bytes \<lparr>Value = [104, 105], Expiration = clock 63900000000000000000,
       LastAccess = \<lparr>instant = 63800000000000000000, loc = UTC\<rparr>, Frequency = 3\<rparr>)
     = \<lparr>Value = [104, 105], Expiration = clock 63900000000000000000,
       LastAccess = \<lparr>instant = 63800000000000000000, loc = UTC\<rparr>, Frequency = 3\<rparr>"
proof -
  have v: "valid_Response \<lparr>Value = [104, 105], Expiration = clock 63900000000000000000,
       LastAccess = \<lparr>instant = 63800000000000000000, loc = UTC\<rparr>, Frequency = 3\<rparr>"
    by (rule valid_ResponseI)
       (simp_all add: valid_time_clock valid_time_def valid_zone_def valid_int_def)
  show ?thesis using v Response_roundtrip [OF v] by simp
qed

text \<open>
  An entry whose expiration is in the zone one minute west of UTC does not come back.
  \<^verbatim>\<open>MarshalBinary\<close> refuses that offset, gob gives up the value,
  \<^verbatim>\<open>Bytes\<close> drops the error and returns the two descriptions, and the decoder
  returns the zero entry.
\<close>

theorem Response_roundtrip_counterexample:
  "time_MarshalBinary \<lparr>instant = 63900000000000000000, loc = Zone (- 60)\<rparr> = None
   \<and> Bytes \<lparr>Value = [104, 105],
        Expiration = \<lparr>instant = 63900000000000000000, loc = Zone (- 60)\<rparr>,
        LastAccess = clock 63800000000000000000, Frequency = 3\<rparr> = typeDescriptors
   \<and> BytesToResponse (Bytes \<lparr>Value = [104, 105],
        Expiration = \<lparr>instant = 63900000000000000000, loc = Zone (- 60)\<rparr>,
        LastAccess = clock 63800000000000000000, Frequency = 3\<rparr>) = zero_Response
   \<and> BytesToResponse (Bytes \<lparr>Value = [104, 105],
        Expiration = \<lparr>instant = 63900000000000000000, loc = Zone (- 60)\<rparr>,
        LastAccess = clock 63800000000000000000, Frequency = 3\<rparr>)
     \<noteq> \<lparr>Value = [104, 105],
        Expiration = \<lparr>instant = 63900000000000000000, loc = Zone (- 60)\<rparr>,
        LastAccess = clock 63800000000000000000, Frequency = 3\<rparr>"
proof -
  define e where "e = \<lparr>Value = [104, 105],
        Expiration = \<lparr>instant = 63900000000000000000, loc = Zone (- 60)\<rparr>,
        LastAccess = clock 63800000000000000000, Frequency = 3\<rparr>"
  have m: "time_MarshalBinary \<lparr>instant = 63900000000000000000, loc = Zone (- 60)\<rparr> = None"
    by (simp add: time_MarshalBinary_def quot_def rem_def Let_def)
  have "encodeStruct e = None"
    by (simp add: e_def encodeStruct_def Let_def sendField_def encodeTime_def m zero_Time_def)
  then have n: "encodeValue e = None" by (simp add: encodeValue_def)
  then have B: "Bytes e = typeDescriptors" by (simp add: Bytes_def)
  have D: "BytesToResponse (Bytes e) = zero_Response"
    using gob_Decode_Bytes_failed [OF n, of zero_Response] by (simp add: BytesToResponse_def)
  have "zero_Response \<noteq> e" by (simp add: e_def zero_Response_def)
  then show ?thesis using m B D unfolding e_def by simp
qed


subsection \<open>Construction\<close>

text \<open>The capacities and the algorithm tags among the options, in order.\<close>

fun capacities :: "AdapterOptions list \<Rightarrow> int list" where
  "capacities [] = []"
| "capacities (AdapterWithCapacity c # opts) = c # capacities opts"
| "capacities (AdapterWithAlgorithm alg # opts) = capacities opts"

fun algorithms :: "AdapterOptions list \<Rightarrow> Algorithm list" where
  "algorithms [] = []"
| "algorithms (AdapterWithCapacity c # opts) = algorithms opts"
| "algorithms (AdapterWithAlgorithm alg # opts) = alg # algorithms opts"

lemma apply_options_eq:
  "apply_options opts a =
     (case find (\<lambda>c. c \<le> 1) (capacities opts) of
        Some c \<Rightarrow> Inl (ErrCapacityGreaterThan c)
      | None \<Rightarrow>
          Inr (a\<lparr>capacity := (if capacities opts = [] then capacity a else last (capacities opts)),
                 algorithm := (if algorithms opts = [] then algorithm a else last (algorithms opts))\<rparr>))"
proof (induction opts arbitrary: a)
  case Nil
  show ?case by simp
next
  case (Cons opt opts)
  show ?case
  proof (cases opt)
    case (AdapterWithAlgorithm alg)
    then show ?thesis by (simp add: Cons split: option.splits)
  next
    case (AdapterWithCapacity c)
    then show ?thesis by (simp add: Cons split: option.splits)
  qed
qed

lemma find_None_last: "find P xs = None \<Longrightarrow> xs \<noteq> [] \<Longrightarrow> \<not> P (last xs)"
  by (induction xs) (auto split: if_splits)

text \<open>
  C8 (amended): NewAdapter returns an error, and no store, exactly when a capacity option is
  at most 1, when no capacity option is given, or when the algorithm is unset (no algorithm
  option, or the empty tag as the last one). It does not look at which tag it is given:
  with a capacity above 1 and any non-empty tag, recognized or not, it returns an empty store
  with that capacity and tag.
\<close>

theorem NewAdapter_result:
  "NewAdapter opts =
     (case find (\<lambda>c. c \<le> 1) (capacities opts) of
        Some c \<Rightarrow> Inl (ErrCapacityGreaterThan c)
      | None \<Rightarrow>
          if capacities opts = [] then Inl ErrCapacityNotSet
          else if algorithms opts = [] \<or> last (algorithms opts) = [] then Inl ErrAlgorithmNotSet
          else Inr \<lparr>capacity = last (capacities opts), algorithm = last (algorithms opts),
                    store = []\<rparr>)"
proof (cases "find (\<lambda>c. c \<le> 1) (capacities opts)")
  case None
  then have "capacities opts \<noteq> [] \<Longrightarrow> \<not> last (capacities opts) \<le> 1"
    by (rule find_None_last)
  then show ?thesis using None by (auto simp: NewAdapter_def apply_options_eq)
next
  case (Some c)
  then show ?thesis by (simp add: NewAdapter_def apply_options_eq)
qed

theorem NewAdapter_result_witness:
  "NewAdapter [AdapterWithAlgorithm LRU, AdapterWithCapacity 3]
     = Inr \<lparr>capacity = 3, algorithm = LRU, store = []\<rparr>
   \<and> NewAdapter [AdapterWithAlgorithm LRU, AdapterWithCapacity 1]
     = Inl (ErrCapacityGreaterThan 1)
   \<and> NewAdapter [AdapterWithAlgorithm LRU] = Inl ErrCapacityNotSet
   \<and> NewAdapter [AdapterWithCapacity 3] = Inl ErrAlgorithmNotSet"
  using NewAdapter_result [of "[AdapterWithAlgorithm LRU, AdapterWithCapacity 3]"]
    NewAdapter_result [of "[AdapterWithAlgorithm LRU, AdapterWithCapacity 1]"]
    NewAdapter_result [of "[AdapterWithAlgorithm LRU]"]
    NewAdapter_result [of "[AdapterWithCapacity 3]"]
  by (simp add: LRU_def)

text \<open>
  The tag FOO is none of LRU, MRU, LFU and MFU, and construction succeeds.
\<close>

theorem NewAdapter_unrecognized_counterexample:
  "NewAdapter [AdapterWithAlgorithm ''FOO'', AdapterWithCapacity 2]
     = Inr \<lparr>capacity = 2, algorithm = ''FOO'', store = []\<rparr>
   \<and> ''FOO'' \<notin> {LRU, MRU, LFU, MFU}"
  by (simp add: NewAdapter_def LRU_def MRU_def LFU_def MFU_def)

subsection \<open>Expiry\<close>

text \<open>
  C6 (amended): a key stored by Set with an expiration that is not after the clock reading
  of the next Get (equal to it, or before it) is a miss: Get returns the absent value with
  found = false and leaves the store as Release of that key leaves it, so the key is gone.
  With an expiration after that clock reading, Get returns the stored value with
  found = true. The entry is one gob can encode: the expiration and the clock reading of Set
  are in UTC or in a zone at a whole number of minutes from UTC, other than one minute west
  of it and within 16 bits, and the message is below gob's size limit.
\<close>

theorem Get_after_Set_expiry:
  assumes "valid_Response
             \<lparr>Value = response, Expiration = expiration, LastAccess = now, Frequency = 1\<rparr>"
  shows "(\<not> After expiration now1 \<longrightarrow>
            Get (Set a k response expiration now evict_now trav) k now1 now2
              = (([], False), Release (Set a k response expiration now evict_now trav) k)
            \<and> map_of (store (Release (Set a k response expiration now evict_now trav) k)) k
              = None)
       \<and> (After expiration now1 \<longrightarrow>
            fst (Get (Set a k response expiration now evict_now trav) k now1 now2)
              = (response, True))"
proof -
  define res where
    "res = \<lparr>Value = response, Expiration = expiration, LastAccess = now, Frequency = 1\<rparr>"
  define a1 where "a1 = Set a k response expiration now evict_now trav"
  have "map_of (store a1) k = Some (Bytes res)"
    by (simp add: a1_def map_of_Set res_def)
  moreover have "BytesToResponse (Bytes res) = res"
    using assms by (simp add: BytesToResponse_Bytes_eq res_def)
  ultimately show ?thesis
    unfolding a1_def [symmetric]
    by (simp add: Get_def Let_def map_of_Release res_def)
qed

theorem Get_after_Set_expiry_witness:
  "Get (Set \<lparr>capacity = 2, algorithm = LRU, store = []\<rparr> 7 [1, 2] (clock 50) (clock 40) (clock 41) []) 7 (clock 50) (clock 51)
     = (([], False), Release (Set \<lparr>capacity = 2, algorithm = LRU, store = []\<rparr> 7 [1, 2] (clock 50) (clock 40) (clock 41) []) 7)
   \<and> map_of (store (Release (Set \<lparr>capacity = 2, algorithm = LRU, store = []\<rparr> 7 [1, 2] (clock 50) (clock 40) (clock 41) []) 7)) 7
     = None
   \<and> fst (Get (Set \<lparr>capacity = 2, algorithm = LRU, store = []\<rparr> 7 [1, 2] (clock 50) (clock 40) (clock 41) []) 7 (clock 49) (clock 51))
     = ([1, 2], True)"
proof -
  have v: "valid_Response \<lparr>Value = [1, 2], Expiration = clock 50, LastAccess = clock 40, Frequency = 1\<rparr>"
    by (rule valid_ResponseI) (simp_all add: valid_time_clock valid_int_def)
  show ?thesis
    using Get_after_Set_expiry [OF v, of "clock 50" "\<lparr>capacity = 2, algorithm = LRU, store = []\<rparr>" 7 "clock 41" "[]" "clock 51"]
      Get_after_Set_expiry [OF v, of "clock 49" "\<lparr>capacity = 2, algorithm = LRU, store = []\<rparr>" 7 "clock 41" "[]" "clock 51"]
    by (simp add: After_def)
qed

text \<open>
  Key 7 is stored with expiration 50 and read when the clock reads 50: the clock has reached
  the expiration and has not passed it, and Get is a miss.
\<close>

theorem Get_at_expiration_counterexample:
  "\<not> Before (clock 50) (clock 50)
   \<and> fst (Get (Set \<lparr>capacity = 2, algorithm = LRU, store = []\<rparr> 7 [1, 2] (clock 50) (clock 40) (clock 41) [])
          7 (clock 50) (clock 51))
     = ([], False)"
proof -
  have v: "valid_Response \<lparr>Value = [1, 2], Expiration = clock 50, LastAccess = clock 40, Frequency = 1\<rparr>"
    by (rule valid_ResponseI) (simp_all add: valid_time_clock valid_int_def)
  have "map_of (store (Set \<lparr>capacity = 2, algorithm = LRU, store = []\<rparr> 7 [1, 2] (clock 50) (clock 40) (clock 41) []))
      7 = Some (Bytes \<lparr>Value = [1, 2], Expiration = clock 50, LastAccess = clock 40, Frequency = 1\<rparr>)"
    by (simp add: map_of_Set)
  then show ?thesis
    by (simp add: Get_def BytesToResponse_Bytes_eq [OF v] After_def Before_def)
qed

text \<open>
  An expiration in the zone one minute west of UTC cannot be encoded. Set stores the two
  descriptions for it, and the next Get is a miss and releases the key, though the
  expiration is after the clock reading.
\<close>

lemma Get_after_Set_unencodable:
  "After \<lparr>instant = 90, loc = Zone (- 60)\<rparr> (clock 50)
   \<and> map_of (store (Set \<lparr>capacity = 2, algorithm = LRU, store = []\<rparr> 7 [1, 2]
         \<lparr>instant = 90, loc = Zone (- 60)\<rparr> (clock 40) (clock 41) [])) 7
       = Some typeDescriptors
   \<and> Get (Set \<lparr>capacity = 2, algorithm = LRU, store = []\<rparr> 7 [1, 2]
         \<lparr>instant = 90, loc = Zone (- 60)\<rparr> (clock 40) (clock 41) []) 7 (clock 50) (clock 51)
       = (([], False), \<lparr>capacity = 2, algorithm = LRU, store = []\<rparr>)"
proof -
  define e where "e = \<lparr>Value = [1, 2], Expiration = \<lparr>instant = 90, loc = Zone (- 60)\<rparr>,
      LastAccess = clock 40, Frequency = 1\<rparr>"
  have m: "time_MarshalBinary \<lparr>instant = 90, loc = Zone (- 60)\<rparr> = None"
    by (simp add: time_MarshalBinary_def quot_def rem_def Let_def)
  have "encodeStruct e = None"
    by (simp add: e_def encodeStruct_def Let_def sendField_def encodeTime_def m zero_Time_def)
  then have n: "encodeValue e = None" by (simp add: encodeValue_def)
  then have B: "Bytes e = typeDescriptors" by (simp add: Bytes_def)
  have D: "BytesToResponse typeDescriptors = zero_Response"
    using gob_Decode_Bytes_failed [OF n, of zero_Response] B by (simp add: BytesToResponse_def)
  have S: "Set \<lparr>capacity = 2, algorithm = LRU, store = []\<rparr> 7 [1, 2]
         \<lparr>instant = 90, loc = Zone (- 60)\<rparr> (clock 40) (clock 41) []
       = \<lparr>capacity = 2, algorithm = LRU, store = [(7, typeDescriptors)]\<rparr>"
    using B by (simp add: Set_def e_def)
  show ?thesis
    unfolding S
    by (simp add: Get_def D After_def zero_Response_def zero_Time_def Release_def)
qed


subsection \<open>The eviction scan\<close>

lemma Algorithm_neq [simp]:
  "LRU \<noteq> MRU" "LRU \<noteq> LFU" "LRU \<noteq> MFU" "MRU \<noteq> LRU" "MRU \<noteq> LFU" "MRU \<noteq> MFU"
  "LFU \<noteq> LRU" "LFU \<noteq> MRU" "LFU \<noteq> MFU" "MFU \<noteq> LRU" "MFU \<noteq> MRU" "MFU \<noteq> LFU"
  by (simp_all add: LRU_def MRU_def LFU_def MFU_def)

lemma evict_step_LRU:
  "evict_step LRU (sel, la, fr) (k, v) =
     (if instant (LastAccess (cache_BytesToResponse v)) < instant la
      then (k, LastAccess (cache_BytesToResponse v), fr) else (sel, la, fr))"
  by (simp add: evict_step_def Before_def Let_def)

lemma evict_step_MFU:
  "evict_step MFU (sel, la, fr) (k, v) =
     (if fr \<le> Frequency (cache_BytesToResponse v)
      then (k, la, Frequency (cache_BytesToResponse v)) else (sel, la, fr))"
  by (simp add: evict_step_def Let_def)

lemma LRU_scan_keep:
  "\<forall>(k, v) \<in> set xs. instant la \<le> instant (LastAccess (cache_BytesToResponse v)) \<Longrightarrow>
   foldl (evict_step LRU) (sel, la, fr) xs = (sel, la, fr)"
  by (induction xs) (auto simp: evict_step_LRU)

lemma LRU_scan_select:
  assumes "(km, vm) \<in> set xs" "distinct (map fst xs)"
    and "\<forall>(k, v) \<in> set xs. k \<noteq> km \<longrightarrow>
           instant (LastAccess (cache_BytesToResponse vm)) < instant (LastAccess (cache_BytesToResponse v))"
    and "instant (LastAccess (cache_BytesToResponse vm)) < instant la"
  shows "foldl (evict_step LRU) (sel, la, fr) xs = (km, LastAccess (cache_BytesToResponse vm), fr)"
  using assms
proof (induction xs arbitrary: sel la)
  case Nil
  then show ?case by simp
next
  case (Cons kv xs)
  obtain k v where kv: "kv = (k, v)" by (cases kv)
  show ?case
  proof (cases "k = km")
    case True
    with Cons.prems(1,2) kv have v: "v = vm"
      by (auto simp: image_iff)
    from True Cons.prems(2) kv have "\<forall>(k', v') \<in> set xs. k' \<noteq> km"
      by (auto simp: image_iff)
    with Cons.prems(3) have
      "\<forall>(k', v') \<in> set xs. instant (LastAccess (cache_BytesToResponse vm))
          \<le> instant (LastAccess (cache_BytesToResponse v'))"
      by fastforce
    then show ?thesis
      using True v kv Cons.prems(4) by (simp add: evict_step_LRU LRU_scan_keep)
  next
    case False
    with Cons.prems(1) kv have in_xs: "(km, vm) \<in> set xs" by auto
    have lt: "instant (LastAccess (cache_BytesToResponse vm)) < instant (LastAccess (cache_BytesToResponse v))"
      using Cons.prems(3) False kv by auto
    have d: "distinct (map fst xs)" using Cons.prems(2) by simp
    have rest: "\<forall>(k, v) \<in> set xs. k \<noteq> km \<longrightarrow>
           instant (LastAccess (cache_BytesToResponse vm)) < instant (LastAccess (cache_BytesToResponse v))"
      using Cons.prems(3) by auto
    show ?thesis
    proof (cases "instant (LastAccess (cache_BytesToResponse v)) < instant la")
      case True
      then show ?thesis
        using kv Cons.IH [OF in_xs d rest lt] by (simp add: evict_step_LRU)
    next
      case False
      then show ?thesis
        using kv Cons.IH [OF in_xs d rest Cons.prems(4)] by (simp add: evict_step_LRU)
    qed
  qed
qed

lemma MFU_scan_keep:
  "\<forall>(k, v) \<in> set xs. Frequency (cache_BytesToResponse v) < fr \<Longrightarrow>
   foldl (evict_step MFU) (sel, la, fr) xs = (sel, la, fr)"
  by (induction xs) (auto simp: evict_step_MFU)

lemma MFU_scan_bound:
  "fr \<le> m \<Longrightarrow> \<forall>(k, v) \<in> set xs. Frequency (cache_BytesToResponse v) \<le> m \<Longrightarrow>
   \<exists>sel' fr'. foldl (evict_step MFU) (sel, la, fr) xs = (sel', la, fr') \<and> fr' \<le> m"
  by (induction xs arbitrary: sel fr) (auto simp: evict_step_MFU)

lemma MFU_scan_select:
  assumes "\<forall>(k, v) \<in> set xs. Frequency (cache_BytesToResponse v)
             \<le> Frequency (cache_BytesToResponse vm)"
    and "\<forall>(k, v) \<in> set ys. Frequency (cache_BytesToResponse v)
             < Frequency (cache_BytesToResponse vm)"
    and "fr \<le> Frequency (cache_BytesToResponse vm)"
  shows "foldl (evict_step MFU) (sel, la, fr) (xs @ (km, vm) # ys)
         = (km, la, Frequency (cache_BytesToResponse vm))"
proof -
  obtain sel' fr' where
    "foldl (evict_step MFU) (sel, la, fr) xs = (sel', la, fr')"
    "fr' \<le> Frequency (cache_BytesToResponse vm)"
    using MFU_scan_bound [OF assms(3,1)] by blast
  then show ?thesis
    using assms(2) by (simp add: evict_step_MFU MFU_scan_keep)
qed

lemma fst_Get_cong:
  "map_of (store a) k = map_of (store a') k \<Longrightarrow>
   fst (Get a k now1 now2) = fst (Get a' k now1 now2)"
  by (simp add: Get_def Let_def split: option.splits)


text \<open>Entries and a store of two entries, for the concrete runs below.\<close>

definition entry :: "bytes \<Rightarrow> int \<Rightarrow> int \<Rightarrow> int \<Rightarrow> Response" where
  "entry v e l f =
     \<lparr>Value = v, Expiration = clock e, LastAccess = clock l, Frequency = f\<rparr>"

definition two_entries :: "Algorithm \<Rightarrow> Response \<Rightarrow> Response \<Rightarrow> Adapter" where
  "two_entries alg r1 r2 =
     \<lparr>capacity = 2, algorithm = alg, store = [(1, Bytes r1), (2, Bytes r2)]\<rparr>"

lemma valid_entry:
  "length v < 2 ^ 32 \<Longrightarrow> valid_time (clock e) \<Longrightarrow> valid_time (clock l) \<Longrightarrow> valid_int f \<Longrightarrow>
   valid_Response (entry v e l f)"
  by (rule valid_ResponseI) (simp_all add: entry_def)

lemma valid_entry_small [simp]:
  "valid_Response (entry [x] 1000 10 1)" "valid_Response (entry [x] 1000 20 1)"
  "valid_Response (entry [x] 1000 10 5)" "valid_Response (entry [x] 1000 20 5)"
  "valid_Response (entry [x] 1000 20 3)"
  by (rule valid_entry; simp add: valid_time_clock valid_int_def)+

text \<open>
  C2: a least-recently-used store that is filled to capacity, whose entries have lastAccess
  values at pairwise distinct instants, all before the clock reading of the eviction, receives a Set
  with a key it does not hold. Whatever order the scan visits the entries in, the entry with
  the smallest lastAccess is removed, every other entry that was stored is still stored with
  the same bytes and answers Get as before, and the new entry is stored.
\<close>

theorem LRU_evicts_oldest:
  assumes "algorithm a = LRU" and "wf_store a" and "traversal trav a"
    and "0 < length (store a)" and "int (length (store a)) = capacity a"
    and "map_of (store a) key = None"
    and "\<forall>(k, v) \<in> set (store a). Before (LastAccess (cache_BytesToResponse v)) evict_now"
    and "inj_on (\<lambda>kv. instant (LastAccess (cache_BytesToResponse (snd kv)))) (set (store a))"
    and "(km, vm) \<in> set (store a)"
    and "\<forall>(k, v) \<in> set (store a).
           instant (LastAccess (cache_BytesToResponse vm)) \<le> instant (LastAccess (cache_BytesToResponse v))"
  shows "map_of (store (Set a key response expiration now evict_now trav)) km = None
       \<and> (\<forall>k. k \<noteq> km \<and> k \<noteq> key \<longrightarrow>
            map_of (store (Set a key response expiration now evict_now trav)) k
              = map_of (store a) k
            \<and> fst (Get (Set a key response expiration now evict_now trav) k now1 now2)
              = fst (Get a k now1 now2))
       \<and> map_of (store (Set a key response expiration now evict_now trav)) key
            = Some (Bytes \<lparr>Value = response, Expiration = expiration, LastAccess = now,
                           Frequency = 1\<rparr>)"
proof -
  have strict: "\<forall>(k, v) \<in> set trav. k \<noteq> km \<longrightarrow>
      instant (LastAccess (cache_BytesToResponse vm)) < instant (LastAccess (cache_BytesToResponse v))"
  proof (clarify)
    fix k v assume kv: "(k, v) \<in> set trav" and ne: "k \<noteq> km"
    then have in_store: "(k, v) \<in> set (store a)" using assms(3) by (simp add: traversal_def)
    then have "instant (LastAccess (cache_BytesToResponse vm)) \<le> instant (LastAccess (cache_BytesToResponse v))"
      using assms(10) by auto
    moreover have "instant (LastAccess (cache_BytesToResponse vm)) \<noteq> instant (LastAccess (cache_BytesToResponse v))"
      using inj_onD [OF assms(8) _ assms(9) in_store] ne by auto
    ultimately show "instant (LastAccess (cache_BytesToResponse vm)) < instant (LastAccess (cache_BytesToResponse v))"
      by simp
  qed
  have "instant (LastAccess (cache_BytesToResponse vm)) < instant evict_now"
    using assms(7,9) by (auto simp: Before_def)
  then have sel: "evict_select (algorithm a) evict_now trav = km"
    using LRU_scan_select [of km vm trav evict_now 0 2147483647] assms(1,3,9) strict
    by (simp add: evict_select_def evict_init_def traversal_def)
  have ne: "km \<noteq> key"
    using assms(6,9) by (auto simp: map_of_eq_None_iff image_iff)
  have m: "map_of (store (Set a key response expiration now evict_now trav)) =
      (map_of (store a))(km := None, key \<mapsto>
         Bytes \<lparr>Value = response, Expiration = expiration, LastAccess = now, Frequency = 1\<rparr>)"
    using assms(4,5) sel by (simp add: map_of_Set)
  show ?thesis
    using ne by (auto simp: m intro!: fst_Get_cong)
qed

theorem LRU_evicts_oldest_witness:
  "map_of (store (Set (two_entries LRU (entry [7] 1000 10 1) (entry [8] 1000 20 1))
        3 [9] (clock 1000) (clock 30) (clock 31) [(2, Bytes (entry [8] 1000 20 1)), (1, Bytes (entry [7] 1000 10 1))])) 1
     = None
   \<and> map_of (store (Set (two_entries LRU (entry [7] 1000 10 1) (entry [8] 1000 20 1))
        3 [9] (clock 1000) (clock 30) (clock 31) [(2, Bytes (entry [8] 1000 20 1)), (1, Bytes (entry [7] 1000 10 1))])) 2
     = Some (Bytes (entry [8] 1000 20 1))
   \<and> map_of (store (Set (two_entries LRU (entry [7] 1000 10 1) (entry [8] 1000 20 1))
        3 [9] (clock 1000) (clock 30) (clock 31) [(2, Bytes (entry [8] 1000 20 1)), (1, Bytes (entry [7] 1000 10 1))])) 3
     = Some (Bytes (entry [9] 1000 30 1))"
proof -
  define a where "a = two_entries LRU (entry [7] 1000 10 1) (entry [8] 1000 20 1)"
  define trav where "trav = [(2 :: key, Bytes (entry [8] 1000 20 1)), (1, Bytes (entry [7] 1000 10 1))]"
  have d: "cache_BytesToResponse (Bytes (entry [7] 1000 10 1)) = entry [7] 1000 10 1"
    "cache_BytesToResponse (Bytes (entry [8] 1000 20 1)) = entry [8] 1000 20 1"
    by (simp_all add: cache_BytesToResponse_def BytesToResponse_Bytes_eq)
  have la: "LastAccess (entry [7] 1000 10 1) = clock 10" "LastAccess (entry [8] 1000 20 1) = clock 20"
    by (simp_all add: entry_def)
  have h1: "algorithm a = LRU" "wf_store a" "0 < length (store a)"
    "int (length (store a)) = capacity a" "map_of (store a) 3 = None"
    by (simp_all add: a_def two_entries_def wf_store_def)
  have h2: "traversal trav a"
    by (auto simp: traversal_def trav_def a_def two_entries_def)
  have h3: "\<forall>(k, v) \<in> set (store a). Before (LastAccess (cache_BytesToResponse v)) (clock 31)"
    by (simp add: a_def two_entries_def d la Before_def)
  have h4: "inj_on (\<lambda>kv. instant (LastAccess (cache_BytesToResponse (snd kv)))) (set (store a))"
    by (simp add: a_def two_entries_def d la)
  have h5: "(1, Bytes (entry [7] 1000 10 1)) \<in> set (store a)"
    by (simp add: a_def two_entries_def)
  have h6: "\<forall>(k, v) \<in> set (store a).
      instant (LastAccess (cache_BytesToResponse (Bytes (entry [7] 1000 10 1))))
        \<le> instant (LastAccess (cache_BytesToResponse v))"
    by (simp add: a_def two_entries_def d la)
  have s2: "map_of (store a) 2 = Some (Bytes (entry [8] 1000 20 1))"
    by (simp add: a_def two_entries_def)
  show ?thesis
    using LRU_evicts_oldest [OF h1(1,2) h2 h1(3,4,5) h3 h4 h5 h6, of "[9]" "clock 1000" "clock 30" "clock 0" "clock 0"] s2
    unfolding a_def [symmetric] trav_def [symmetric]
    by (simp add: entry_def)
qed


text \<open>
  C7: a most-frequently-used store that is filled to capacity, whose entries carry the
  frequencies of the data model (at least 1), receives a Set with a key it does not hold.
  If the frequencies are pairwise distinct, the entry with the largest frequency is the one
  removed, whatever the order of the scan. In general the scan replaces its candidate by any
  entry whose frequency is greater than or equal to the candidate's, so among entries that
  tie for the largest frequency the one the scan meets last is removed. In both cases
  nothing else is removed and the new entry is stored.
\<close>

theorem MFU_evicts_most_frequent:
  assumes "algorithm a = MFU" and "wf_store a" and "traversal trav a"
    and "0 < length (store a)" and "int (length (store a)) = capacity a"
    and "map_of (store a) key = None"
    and "\<forall>(k, v) \<in> set (store a). 1 \<le> Frequency (cache_BytesToResponse v)"
  shows "(\<forall>km vm.
            inj_on (\<lambda>kv. Frequency (cache_BytesToResponse (snd kv))) (set (store a))
            \<and> (km, vm) \<in> set (store a)
            \<and> (\<forall>(k, v) \<in> set (store a).
                  Frequency (cache_BytesToResponse v) \<le> Frequency (cache_BytesToResponse vm))
            \<longrightarrow> map_of (store (Set a key response expiration now evict_now trav))
                  = (map_of (store a))(km := None, key \<mapsto>
                      Bytes \<lparr>Value = response, Expiration = expiration, LastAccess = now,
                             Frequency = 1\<rparr>))
       \<and> (\<forall>km vm xs ys.
            trav = xs @ (km, vm) # ys
            \<and> (\<forall>(k, v) \<in> set xs.
                  Frequency (cache_BytesToResponse v) \<le> Frequency (cache_BytesToResponse vm))
            \<and> (\<forall>(k, v) \<in> set ys.
                  Frequency (cache_BytesToResponse v) < Frequency (cache_BytesToResponse vm))
            \<longrightarrow> map_of (store (Set a key response expiration now evict_now trav))
                  = (map_of (store a))(km := None, key \<mapsto>
                      Bytes \<lparr>Value = response, Expiration = expiration, LastAccess = now,
                             Frequency = 1\<rparr>))"
proof -
  let ?F = "\<lambda>v. Frequency (cache_BytesToResponse v)"
  let ?R = "\<lambda>km. map_of (store (Set a key response expiration now evict_now trav))
                  = (map_of (store a))(km := None, key \<mapsto>
                      Bytes \<lparr>Value = response, Expiration = expiration, LastAccess = now,
                             Frequency = 1\<rparr>)"
  have tie: "?R km"
    if t: "trav = xs @ (km, vm) # ys"
      and le: "\<forall>(k, v) \<in> set xs. ?F v \<le> ?F vm"
      and lt: "\<forall>(k, v) \<in> set ys. ?F v < ?F vm"
    for km vm xs ys
  proof -
    have "(km, vm) \<in> set (store a)" using t assms(3) by (auto simp: traversal_def)
    then have "0 \<le> ?F vm" using assms(7) by fastforce
    then have "evict_select (algorithm a) evict_now trav = km"
      using MFU_scan_select [OF le lt, of 0 0 evict_now km] assms(1) t
      by (simp add: evict_select_def evict_init_def)
    then show ?thesis using assms(4,5) by (simp add: map_of_Set)
  qed
  have distinct_case: "?R km"
    if inj: "inj_on (\<lambda>kv. ?F (snd kv)) (set (store a))"
      and km: "(km, vm) \<in> set (store a)"
      and mx: "\<forall>(k, v) \<in> set (store a). ?F v \<le> ?F vm"
    for km vm
  proof -
    have "(km, vm) \<in> set trav" using km assms(3) by (simp add: traversal_def)
    then obtain xs ys where t: "trav = xs @ (km, vm) # ys" by (auto dest: split_list)
    have sub: "set xs \<subseteq> set (store a)" "set ys \<subseteq> set (store a)"
      using t assms(3) by (auto simp: traversal_def)
    have d: "distinct trav" using assms(3) by (auto simp: traversal_def dest: distinct_map[THEN iffD1])
    have le: "\<forall>(k, v) \<in> set xs. ?F v \<le> ?F vm" using mx sub by auto
    have lt: "\<forall>(k, v) \<in> set ys. ?F v < ?F vm"
    proof (clarify)
      fix k v assume kv: "(k, v) \<in> set ys"
      then have in_store: "(k, v) \<in> set (store a)" using sub by auto
      have "(k, v) \<noteq> (km, vm)" using d t kv by auto
      then have "?F v \<noteq> ?F vm" using inj_onD [OF inj _ in_store km] by auto
      moreover have "?F v \<le> ?F vm" using mx in_store by auto
      ultimately show "?F v < ?F vm" by simp
    qed
    show ?thesis by (rule tie [OF t le lt])
  qed
  show ?thesis using tie distinct_case by blast
qed

theorem MFU_evicts_most_frequent_witness:
  "map_of (store (Set (two_entries MFU (entry [7] 1000 10 5) (entry [8] 1000 20 3))
        3 [9] (clock 1000) (clock 30) (clock 31) [(2, Bytes (entry [8] 1000 20 3)), (1, Bytes (entry [7] 1000 10 5))]))
     = [2 \<mapsto> Bytes (entry [8] 1000 20 3), 3 \<mapsto> Bytes (entry [9] 1000 30 1)]
   \<and> map_of (store (Set (two_entries MFU (entry [7] 1000 10 5) (entry [8] 1000 20 5))
        3 [9] (clock 1000) (clock 30) (clock 31) [(2, Bytes (entry [8] 1000 20 5)), (1, Bytes (entry [7] 1000 10 5))]))
     = [2 \<mapsto> Bytes (entry [8] 1000 20 5), 3 \<mapsto> Bytes (entry [9] 1000 30 1)]"
proof -
  define r1 where "r1 = entry [7] 1000 10 5"
  define r2 where "r2 = entry [8] 1000 20 3"
  define r3 where "r3 = entry [8] 1000 20 5"
  define a where "a = two_entries MFU r1 r2"
  define b where "b = two_entries MFU r1 r3"
  have d: "cache_BytesToResponse (Bytes r1) = r1" "cache_BytesToResponse (Bytes r2) = r2"
    "cache_BytesToResponse (Bytes r3) = r3"
    by (simp_all add: cache_BytesToResponse_def BytesToResponse_Bytes_eq r1_def r2_def r3_def)
  have f: "Frequency r1 = 5" "Frequency r2 = 3" "Frequency r3 = 5"
    by (simp_all add: entry_def r1_def r2_def r3_def)
  have a1: "algorithm a = MFU" "wf_store a" "0 < length (store a)"
    "int (length (store a)) = capacity a" "map_of (store a) 3 = None"
    by (simp_all add: a_def two_entries_def wf_store_def)
  have a2: "traversal [(2, Bytes r2), (1, Bytes r1)] a"
    by (auto simp: traversal_def a_def two_entries_def)
  have a3: "\<forall>(k, v) \<in> set (store a). 1 \<le> Frequency (cache_BytesToResponse v)"
    by (simp add: a_def two_entries_def d f)
  have a4: "inj_on (\<lambda>kv. Frequency (cache_BytesToResponse (snd kv))) (set (store a))
      \<and> (1, Bytes r1) \<in> set (store a)
      \<and> (\<forall>(k, v) \<in> set (store a).
            Frequency (cache_BytesToResponse v) \<le> Frequency (cache_BytesToResponse (Bytes r1)))"
    by (simp add: a_def two_entries_def d f)
  have b1: "algorithm b = MFU" "wf_store b" "0 < length (store b)"
    "int (length (store b)) = capacity b" "map_of (store b) 3 = None"
    by (simp_all add: b_def two_entries_def wf_store_def)
  have b2: "traversal [(2, Bytes r3), (1, Bytes r1)] b"
    by (auto simp: traversal_def b_def two_entries_def)
  have b3: "\<forall>(k, v) \<in> set (store b). 1 \<le> Frequency (cache_BytesToResponse v)"
    by (simp add: b_def two_entries_def d f)
  have b4: "[(2, Bytes r3), (1, Bytes r1)] = [(2, Bytes r3)] @ (1, Bytes r1) # []
      \<and> (\<forall>(k, v) \<in> set [(2 :: key, Bytes r3)].
            Frequency (cache_BytesToResponse v) \<le> Frequency (cache_BytesToResponse (Bytes r1)))
      \<and> (\<forall>(k, v) \<in> set ([] :: (key \<times> bytes) list).
            Frequency (cache_BytesToResponse v) < Frequency (cache_BytesToResponse (Bytes r1)))"
    by (simp add: d f)
  have A: "map_of (store (Set a 3 [9] (clock 1000) (clock 30) (clock 31) [(2, Bytes r2), (1, Bytes r1)]))
      = (map_of (store a))(1 := None, 3 \<mapsto> Bytes (entry [9] 1000 30 1))"
    using MFU_evicts_most_frequent [OF a1(1,2) a2 a1(3,4,5) a3, of "[9]" "clock 1000" "clock 30" "clock 31",
        THEN conjunct1, rule_format, OF a4]
    by (simp add: entry_def)
  have B: "map_of (store (Set b 3 [9] (clock 1000) (clock 30) (clock 31) [(2, Bytes r3), (1, Bytes r1)]))
      = (map_of (store b))(1 := None, 3 \<mapsto> Bytes (entry [9] 1000 30 1))"
    using MFU_evicts_most_frequent [OF b1(1,2) b2 b1(3,4,5) b3, of "[9]" "clock 1000" "clock 30" "clock 31",
        THEN conjunct2, rule_format, OF b4]
    by (simp add: entry_def)
  have "(map_of (store a))(1 := None, 3 \<mapsto> Bytes (entry [9] 1000 30 1))
      = [2 \<mapsto> Bytes r2, 3 \<mapsto> Bytes (entry [9] 1000 30 1)]"
    by (auto simp: a_def two_entries_def fun_eq_iff)
  moreover have "(map_of (store b))(1 := None, 3 \<mapsto> Bytes (entry [9] 1000 30 1))
      = [2 \<mapsto> Bytes r3, 3 \<mapsto> Bytes (entry [9] 1000 30 1)]"
    by (auto simp: b_def two_entries_def fun_eq_iff)
  ultimately show ?thesis
    using A B unfolding a_def b_def r1_def r2_def r3_def by simp
qed


subsection \<open>Overwriting a key, and reading one\<close>


lemma valid_int_wrap: "valid_int (wrap_int64 i)"
  unfolding wrap_int64_def valid_int_def
  using pos_mod_sign [of "2 ^ 64 :: int" "i + 2 ^ 63"] pos_mod_bound [of "2 ^ 64 :: int" "i + 2 ^ 63"]
  by simp

lemma cache_decode_small [simp]:
  "cache_BytesToResponse (Bytes (entry [x] 1000 10 1)) = entry [x] 1000 10 1"
  "cache_BytesToResponse (Bytes (entry [x] 1000 20 1)) = entry [x] 1000 20 1"
  by (simp_all add: cache_BytesToResponse_def BytesToResponse_Bytes_eq)

lemma entry_sel [simp]:
  "Value (entry v e l f) = v" "Expiration (entry v e l f) = clock e"
  "LastAccess (entry v e l f) = clock l" "Frequency (entry v e l f) = f"
  by (simp_all add: entry_def)

text \<open>
  C3 (amended): for every store and every key k already present, Set(k, value, expiration)
  removes no entry and replaces k's entry when the number of stored entries differs from the
  capacity. When the store holds exactly capacity entries, Set runs the eviction step first
  although k is present: the key selected by the policy's scan is removed (another key, or k
  itself), and then k's entry is stored.
\<close>

theorem Set_existing_key:
  assumes "map_of (store a) key = Some old"
  shows "(int (length (store a)) \<noteq> capacity a \<longrightarrow>
            map_of (store (Set a key response expiration now evict_now trav))
              = (map_of (store a))(key \<mapsto>
                  Bytes \<lparr>Value = response, Expiration = expiration, LastAccess = now,
                         Frequency = 1\<rparr>))
       \<and> (int (length (store a)) = capacity a \<longrightarrow>
            map_of (store (Set a key response expiration now evict_now trav))
              = (map_of (store a))(evict_select (algorithm a) evict_now trav := None,
                  key \<mapsto>
                  Bytes \<lparr>Value = response, Expiration = expiration, LastAccess = now,
                         Frequency = 1\<rparr>))"
proof -
  have "store a \<noteq> []" using assms by auto
  then show ?thesis by (simp add: map_of_Set)
qed

theorem Set_existing_key_witness:
  "map_of (store (Set \<lparr>capacity = 3, algorithm = LRU,
        store = [(1, Bytes (entry [7] 1000 10 1)), (2, Bytes (entry [8] 1000 20 1))]\<rparr>
        2 [9] (clock 1000) (clock 30) (clock 31) [(1, Bytes (entry [7] 1000 10 1)), (2, Bytes (entry [8] 1000 20 1))]))
     = [1 \<mapsto> Bytes (entry [7] 1000 10 1), 2 \<mapsto> Bytes (entry [9] 1000 30 1)]
   \<and> map_of (store (Set \<lparr>capacity = 2, algorithm = LRU,
        store = [(1, Bytes (entry [7] 1000 10 1)), (2, Bytes (entry [8] 1000 20 1))]\<rparr>
        2 [9] (clock 1000) (clock 30) (clock 31) [(1, Bytes (entry [7] 1000 10 1)), (2, Bytes (entry [8] 1000 20 1))]))
     = [2 \<mapsto> Bytes (entry [9] 1000 30 1)]"
proof -
  define st where
    "st = [(1 :: key, Bytes (entry [7] 1000 10 1)), (2, Bytes (entry [8] 1000 20 1))]"
  have sel: "evict_select LRU (clock 31) st = 1"
    by (simp add: evict_select_def evict_init_def st_def evict_step_LRU)
  have s: "map_of st 2 = Some (Bytes (entry [8] 1000 20 1))" by (simp add: st_def)
  have "map_of (store (Set \<lparr>capacity = 3, algorithm = LRU, store = st\<rparr> 2 [9] (clock 1000) (clock 30) (clock 31) st))
      = (map_of st)(2 \<mapsto> Bytes (entry [9] 1000 30 1))"
    using Set_existing_key [of "\<lparr>capacity = 3, algorithm = LRU, store = st\<rparr>" 2 _
        "[9]" "clock 1000" "clock 30" "clock 31" st] s
    by (simp add: st_def entry_def)
  moreover have "map_of (store (Set \<lparr>capacity = 2, algorithm = LRU, store = st\<rparr> 2 [9] (clock 1000) (clock 30) (clock 31) st))
      = (map_of st)(1 := None, 2 \<mapsto> Bytes (entry [9] 1000 30 1))"
    using Set_existing_key [of "\<lparr>capacity = 2, algorithm = LRU, store = st\<rparr>" 2 _
        "[9]" "clock 1000" "clock 30" "clock 31" st] s sel
    by (simp add: st_def entry_def)
  moreover have "(map_of st)(2 \<mapsto> Bytes (entry [9] 1000 30 1))
      = [1 \<mapsto> Bytes (entry [7] 1000 10 1), 2 \<mapsto> Bytes (entry [9] 1000 30 1)]"
    by (auto simp: st_def fun_eq_iff)
  moreover have "(map_of st)(1 := None, 2 \<mapsto> Bytes (entry [9] 1000 30 1))
      = [2 \<mapsto> Bytes (entry [9] 1000 30 1)]"
    by (auto simp: st_def fun_eq_iff)
  ultimately show ?thesis unfolding st_def by simp
qed

text \<open>
  A store of capacity 2 holds keys 1 and 2. Set on key 2, which is present, runs the
  least-recently-used eviction and removes key 1.
\<close>

theorem Set_existing_key_counterexample:
  "map_of (store (two_entries LRU (entry [7] 1000 10 1) (entry [8] 1000 20 1))) 2
     = Some (Bytes (entry [8] 1000 20 1))
   \<and> map_of (store (two_entries LRU (entry [7] 1000 10 1) (entry [8] 1000 20 1))) 1
     = Some (Bytes (entry [7] 1000 10 1))
   \<and> map_of (store (Set (two_entries LRU (entry [7] 1000 10 1) (entry [8] 1000 20 1))
        2 [9] (clock 1000) (clock 30) (clock 31)
        (store (two_entries LRU (entry [7] 1000 10 1) (entry [8] 1000 20 1))))) 1
     = None"
proof -
  have "evict_select LRU (clock 31) [(1, Bytes (entry [7] 1000 10 1)), (2, Bytes (entry [8] 1000 20 1))]
      = 1"
    by (simp add: evict_select_def evict_init_def evict_step_LRU)
  then show ?thesis by (simp add: map_of_Set two_entries_def)
qed





subsection \<open>Records that do not decode\<close>

lemma decodeUint_truncated:
  assumes "strict_prefix b (encodeUint w)"
  shows "decodeUint b = None"
proof (cases b)
  case Nil
  then show ?thesis by simp
next
  case (Cons c p)
  show ?thesis
  proof (cases "w \<le> 0x7F")
    case True
    then show ?thesis using assms Cons by (auto simp: encodeUint_def strict_prefix_def)
  next
    case False
    define n where "n = bytelen (unat w)"
    have n: "0 < n" "n \<le> 8" by (simp_all add: n_def bytelen_pos bytelen_word64)
    have e: "encodeUint w = of_nat (256 - n) # be_bytes n (unat w)"
      using False by (simp add: encodeUint_def Let_def n_def)
    have c: "c = of_nat (256 - n)" and p: "strict_prefix p (be_bytes n (unat w))"
      using assms Cons e by (auto simp: strict_prefix_def)
    have "length p < n"
      using p prefix_length_less [of p "be_bytes n (unat w)"] by simp
    moreover have u: "unat (of_nat (256 - n) :: byte) = 256 - n"
      using n by (subst unat_of_nat) simp
    moreover have "\<not> (of_nat (256 - n) :: byte) \<le> 0x7F"
      using n u by (simp add: word_le_nat_alt)
    ultimately show ?thesis using Cons c n by (simp add: Let_def)
  qed
qed

lemma strict_prefix_append:
  assumes "strict_prefix b (xs @ ys)"
  shows "strict_prefix b xs \<or> (\<exists>p. b = xs @ p \<and> strict_prefix p ys)"
proof -
  have "prefix b (xs @ ys)" "b \<noteq> xs @ ys" using assms by (simp_all add: strict_prefix_def)
  then show ?thesis
    by (cases "b = xs") (auto simp: prefix_append strict_prefix_def)
qed

lemma recvMessage_truncated:
  assumes "strict_prefix b (message c)" and "length c < tooBig"
  shows "\<exists>e. recvMessage b = Inl e"
proof -
  define w :: "64 word" where "w = of_nat (length c)"
  have "length c < 2 ^ 64" using assms(2) by (simp add: tooBig_def)
  then have u: "unat w = length c" by (simp add: w_def unat_of_nat)
  have "strict_prefix b (encodeUint w @ c)"
    using assms(1) by (simp add: message_def w_def)
  then consider (header) "strict_prefix b (encodeUint w)"
    | (body) p where "b = encodeUint w @ p" "strict_prefix p c"
    using strict_prefix_append by blast
  then show ?thesis
  proof cases
    case header
    then show ?thesis by (simp add: recvMessage_def decodeUint_truncated)
  next
    case body
    then have "length p < length c" by (simp add: prefix_length_less)
    then show ?thesis
      using body(1) u by (simp add: recvMessage_def decodeUint_encodeUint)
  qed
qed

lemma decodeTypeSequence_truncated:
  assumes "strict_prefix b (message c)" and "length c < tooBig"
  shows "\<exists>e. decodeTypeSequence fm sR sT b = Inl e"
proof -
  obtain e where "recvMessage b = Inl e" using recvMessage_truncated [OF assms] by blast
  then show ?thesis by (subst decodeTypeSequence.simps) simp
qed

text \<open>
  A record cut anywhere, in a description, between two messages or in the value: the
  decoder reports an error and leaves the entry it was given as it is.
\<close>

lemma gob_Decode_truncated:
  assumes "strict_prefix b (Bytes r)"
  shows "fst (gob_Decode b r0) = r0 \<and> snd (gob_Decode b r0) \<noteq> None"
proof -
  define c1 where "c1 = encodeInt (- Response_typeId) @ Response_wire"
  define c2 where "c2 = encodeInt (- Time_typeId) @ Time_wire"
  define V where "V = (case encodeValue r of None \<Rightarrow> [] | Some m \<Rightarrow> m)"
  have l1: "length c1 < tooBig" unfolding c1_def length_Response_wire by (simp add: tooBig_def)
  have l2: "length c2 < tooBig" unfolding c2_def length_Time_wire by (simp add: tooBig_def)
  have B: "Bytes r = message c1 @ message c2 @ V"
    by (simp add: Bytes_def typeDescriptors_def c1_def c2_def V_def)
  have V: "V = [] \<or> (\<exists>c. V = message c \<and> length c < tooBig)"
    by (auto simp: V_def encodeValue_def Let_def split: option.splits if_splits)
  have "\<exists>e. decodeTypeSequence True False False b = Inl e"
  proof -
    from assms B strict_prefix_append [of b "message c1" "message c2 @ V"]
    consider (first) "strict_prefix b (message c1)"
      | (rest) p where "b = message c1 @ p" "strict_prefix p (message c2 @ V)"
      by auto
    then show ?thesis
    proof cases
      case first
      then show ?thesis using l1 by (rule decodeTypeSequence_truncated)
    next
      case rest
      have b: "decodeTypeSequence True False False b = decodeTypeSequence False True False p"
        unfolding rest(1) c1_def by (rule decodeTypeSequence_Response)
      from rest(2) strict_prefix_append [of p "message c2" V]
      consider (second) "strict_prefix p (message c2)"
        | (val) q where "p = message c2 @ q" "strict_prefix q V"
        by auto
      then show ?thesis
      proof cases
        case second
        then show ?thesis
          unfolding b using l2 by (rule decodeTypeSequence_truncated)
      next
        case val
        have p: "decodeTypeSequence False True False p = decodeTypeSequence False True True q"
          unfolding val(1) c2_def by (rule decodeTypeSequence_Time)
        from val(2) V obtain c where c: "V = message c" "length c < tooBig" by auto
        show ?thesis
          unfolding b p using val(2) c decodeTypeSequence_truncated [of q c] by simp
      qed
    qed
  qed
  then show ?thesis by (auto simp: gob_Decode_def)
qed

text \<open>
  A record with the two descriptions and a value of 23 bytes: the type id, the value
  \<open>[7]\<close>, an expiration in UTC, 64424509440 seconds after the zero time (the year
  2042), and then the field distance 9, which leads beyond the last field.
\<close>

definition corrupt_record :: bytes where
  "corrupt_record =
     typeDescriptors @
     [0x17, 0xFF, 0x80,
      0x01, 0x01, 0x07,
      0x01, 0x0F, 0x01, 0, 0, 0, 0x0F, 0, 0, 0, 0, 0, 0, 0, 0, 0xFF, 0xFF,
      0x09]"

lemma be_val_Cons: "be_val (b # bs) = unat b * 256 ^ length bs + be_val bs"
proof (induction bs arbitrary: b rule: rev_induct)
  case Nil
  show ?case by (simp add: be_val_def)
next
  case (snoc x xs)
  have "be_val (b # xs @ [x]) = be_val ((b # xs) @ [x])" by simp
  also have "\<dots> = be_val (b # xs) * 256 + unat x" by (rule be_val_snoc)
  finally show ?case by (simp add: snoc be_val_snoc algebra_simps)
qed

lemma be_val_Nil [simp]: "be_val [] = 0"
  by (simp add: be_val_def)

lemma gob_Decode_corrupt_record:
  "gob_Decode corrupt_record zero_Response
     = (\<lparr>Value = [7], Expiration = \<lparr>instant = 64424509440000000000, loc = UTC\<rparr>,
         LastAccess = zero_Time, Frequency = 0\<rparr>, Some ErrRange)"
proof -
  have t: "time_UnmarshalBinary [0x01, 0, 0, 0, 0x0F, 0, 0, 0, 0, 0, 0, 0, 0, 0xFF, 0xFF]
      = Some \<lparr>instant = 64424509440000000000, loc = UTC\<rparr>"
    by (simp add: time_UnmarshalBinary_def int64_be_def int16_be_def be_val_Cons Let_def)
  have s3: "decodeStruct 1 [0x09] r = (r, Some ErrRange)" for r
    by (subst decodeStruct.simps) simp
  have s2: "decodeStruct 0
      [0x01, 0x0F, 0x01, 0, 0, 0, 0x0F, 0, 0, 0, 0, 0, 0, 0, 0, 0xFF, 0xFF, 0x09] r
      = (r\<lparr>Expiration := \<lparr>instant = 64424509440000000000, loc = UTC\<rparr>\<rparr>, Some ErrRange)"
    for r
    by (subst decodeStruct.simps)
       (simp add: decodeField_def decodeTime_def decodeBytes_def tooBig_def t s3)
  have s1: "decodeStruct (- 1)
      [0x01, 0x01, 0x07,
       0x01, 0x0F, 0x01, 0, 0, 0, 0x0F, 0, 0, 0, 0, 0, 0, 0, 0, 0xFF, 0xFF, 0x09] r
      = (r\<lparr>Value := [7], Expiration := \<lparr>instant = 64424509440000000000, loc = UTC\<rparr>\<rparr>,
         Some ErrRange)" for r
    by (subst decodeStruct.simps)
       (simp add: decodeField_def decodeBytes_def tooBig_def s2)
  have v: "decodeTypeSequence False True True
      [0x17, 0xFF, 0x80,
       0x01, 0x01, 0x07,
       0x01, 0x0F, 0x01, 0, 0, 0, 0x0F, 0, 0, 0, 0, 0, 0, 0, 0, 0xFF, 0xFF, 0x09]
      = Inr (True, True, 64,
       [0x01, 0x01, 0x07,
       0x01, 0x0F, 0x01, 0, 0, 0, 0x0F, 0, 0, 0, 0, 0, 0, 0, 0, 0xFF, 0xFF, 0x09])"
    by (subst decodeTypeSequence.simps)
       (simp add: recvMessage_def tooBig_def decodeInt_def be_val_Cons typeId_def)
  show ?thesis
    unfolding corrupt_record_def gob_Decode_typeDescriptors v
    by (simp add: Response_typeId_def s1 zero_Response_def)
qed

text \<open>
  C10 (amended): for every key k whose stored bytes are a truncated record (a proper prefix
  of a record that \<^verbatim>\<open>Bytes\<close> writes, the empty byte string included), decoding
  signals no error to the caller, although the decoder reports one, and yields the
  zero-valued entry; Get(k) then returns the absent value with found = false and removes
  the entry as Release does, for every clock reading at or after Go's zero time. For every
  stored record, decoded with or without an error, Get takes this removal path exactly when
  the decoded expiration is not after the clock reading.
\<close>

theorem Get_truncated_record:
  assumes "map_of (store a) k = Some b"
  shows "(strict_prefix b (Bytes r) \<and> 0 \<le> instant now1 \<longrightarrow>
            BytesToResponse b = zero_Response
            \<and> snd (gob_Decode b zero_Response) \<noteq> None
            \<and> Get a k now1 now2 = (([], False), Release a k)
            \<and> map_of (store (Release a k)) k = None)
       \<and> (Get a k now1 now2 = (([], False), Release a k)
            \<longleftrightarrow> \<not> After (Expiration (BytesToResponse b)) now1)"
proof -
  have miss: "Get a k now1 now2 = (([], False), Release a k)"
    if "\<not> After (Expiration (BytesToResponse b)) now1"
    using that assms by (simp add: Get_def Let_def)
  have hit: "Get a k now1 now2 \<noteq> (([], False), Release a k)"
    if "After (Expiration (BytesToResponse b)) now1"
    using that assms by (simp add: Get_def Let_def)
  have trunc: "BytesToResponse b = zero_Response \<and> snd (gob_Decode b zero_Response) \<noteq> None"
    if "strict_prefix b (Bytes r)"
    using gob_Decode_truncated [OF that, of zero_Response] by (simp add: BytesToResponse_def)
  have "\<not> After (Expiration zero_Response) now1" if "0 \<le> instant now1"
    using that by (simp add: After_def zero_Response_def zero_Time_def)
  then show ?thesis
    using miss hit trunc by (auto simp: map_of_Release)
qed

lemma Bytes_not_Nil: "Bytes r \<noteq> []"
  by (simp add: Bytes_def typeDescriptors_bytes)

theorem Get_truncated_record_witness:
  "BytesToResponse [] = zero_Response
   \<and> snd (gob_Decode [] zero_Response) = Some EOF
   \<and> Get \<lparr>capacity = 2, algorithm = LRU, store = [(1, [])]\<rparr> 1 (clock 5) (clock 6)
       = (([], False), \<lparr>capacity = 2, algorithm = LRU, store = []\<rparr>)
   \<and> BytesToResponse (butlast (Bytes (entry [7] 1000 10 1))) = zero_Response
   \<and> Get \<lparr>capacity = 2, algorithm = LRU, store = [(1, butlast (Bytes (entry [7] 1000 10 1)))]\<rparr>
         1 (clock 5) (clock 6)
       = (([], False), \<lparr>capacity = 2, algorithm = LRU, store = []\<rparr>)"
proof -
  define r where "r = entry [7] 1000 10 1"
  have ne: "Bytes r \<noteq> []" by (rule Bytes_not_Nil)
  have p1: "strict_prefix [] (Bytes r)" using ne by (cases "Bytes r") simp_all
  have "Bytes r = butlast (Bytes r) @ last (Bytes r) # []" using ne by simp
  then have p2: "strict_prefix (butlast (Bytes r)) (Bytes r)"
    by (rule strict_prefixI')
  have m1: "map_of (store \<lparr>capacity = 2, algorithm = LRU, store = [(1, [])]\<rparr>) 1 = Some []"
    by simp
  have m2: "map_of (store \<lparr>capacity = 2, algorithm = LRU, store = [(1, butlast (Bytes r))]\<rparr>) 1
      = Some (butlast (Bytes r))"
    by simp
  have e: "snd (gob_Decode [] zero_Response) = Some EOF"
    by (simp add: gob_Decode_def decodeTypeSequence.simps [of True False False "[]"]
        recvMessage_def)
  show ?thesis
    using Get_truncated_record [OF m1, of r "clock 5" "clock 6"]
      Get_truncated_record [OF m2, of r "clock 5" "clock 6"] p1 p2 e
    unfolding r_def [symmetric]
    by (simp add: Release_def)
qed

text \<open>
  The record above is cut short after its expiration field (a field number out of range
  follows): the decoder reports an error, but the value and the expiration it had already
  stored stay in the entry, which is not the zero-valued one. A Get in the year 2025,
  before that expiration, is a hit and rewrites the record instead of removing it.
\<close>

theorem Get_corrupt_record_counterexample:
  "gob_Decode corrupt_record zero_Response
     = (\<lparr>Value = [7], Expiration = \<lparr>instant = 64424509440000000000, loc = UTC\<rparr>,
         LastAccess = zero_Time, Frequency = 0\<rparr>, Some ErrRange)
   \<and> BytesToResponse corrupt_record \<noteq> zero_Response
   \<and> Get \<lparr>capacity = 2, algorithm = LRU, store = [(1, corrupt_record)]\<rparr> 1
         (clock 63900000000000000000) (clock 63900000000000000001)
       = (([7], True),
          \<lparr>capacity = 2, algorithm = LRU,
           store = [(1, Bytes \<lparr>Value = [7],
                                Expiration = \<lparr>instant = 64424509440000000000, loc = UTC\<rparr>,
                                LastAccess = clock 63900000000000000001,
                                Frequency = 1\<rparr>)]\<rparr>)"
proof -
  have d: "BytesToResponse corrupt_record
      = \<lparr>Value = [7], Expiration = \<lparr>instant = 64424509440000000000, loc = UTC\<rparr>,
         LastAccess = zero_Time, Frequency = 0\<rparr>"
    by (simp add: BytesToResponse_def gob_Decode_corrupt_record)
  have nz: "BytesToResponse corrupt_record \<noteq> zero_Response"
    by (simp add: d zero_Response_def)
  have w: "wrap_int64 1 = 1" by (simp add: wrap_int64_def)
  have g: "Get \<lparr>capacity = 2, algorithm = LRU, store = [(1, corrupt_record)]\<rparr> 1
         (clock 63900000000000000000) (clock 63900000000000000001)
       = (([7], True),
          \<lparr>capacity = 2, algorithm = LRU,
           store = [(1, Bytes \<lparr>Value = [7],
                                Expiration = \<lparr>instant = 64424509440000000000, loc = UTC\<rparr>,
                                LastAccess = clock 63900000000000000001,
                                Frequency = 1\<rparr>)]\<rparr>)"
    by (simp add: d Get_def After_def w)
  show ?thesis
    using gob_Decode_corrupt_record nz g by simp
qed


subsection \<open>Capacity\<close>

text \<open>The test by which the scan of each policy replaces its candidate.\<close>

definition selects :: "Algorithm \<Rightarrow> Time \<times> int \<Rightarrow> Response \<Rightarrow> bool" where
  "selects alg thr r =
     (case thr of (lastAccess, frequency) \<Rightarrow>
        if alg = LRU then instant (LastAccess r) < instant lastAccess
        else if alg = MRU then instant lastAccess \<le> instant (LastAccess r)
        else if alg = LFU then Frequency r < frequency
        else if alg = MFU then frequency \<le> Frequency r
        else False)"

lemma evict_step_selects:
  "selects alg (la, fr) (cache_BytesToResponse v) \<Longrightarrow>
     fst (evict_step alg (sel, la, fr) (k, v)) = k"
  "\<not> selects alg (la, fr) (cache_BytesToResponse v) \<Longrightarrow>
     evict_step alg (sel, la, fr) (k, v) = (sel, la, fr)"
  by (auto simp: selects_def evict_step_def Let_def Before_def After_def Equal_def
      split: if_splits)

lemma evict_scan_in:
  assumes "fst ` set xs \<subseteq> S"
    and "sel \<in> S \<or> (\<exists>(k, v) \<in> set xs. selects alg (la, fr) (cache_BytesToResponse v))"
  shows "fst (foldl (evict_step alg) (sel, la, fr) xs) \<in> S"
  using assms
proof (induction xs arbitrary: sel la fr)
  case Nil
  then show ?case by simp
next
  case (Cons kv xs)
  obtain k v where kv: "kv = (k, v)" by (cases kv)
  have sub: "fst ` set xs \<subseteq> S" and k: "k \<in> S" using Cons.prems(1) kv by auto
  show ?case
  proof (cases "selects alg (la, fr) (cache_BytesToResponse v)")
    case True
    obtain sel' la' fr' where st: "evict_step alg (sel, la, fr) (k, v) = (sel', la', fr')"
      by (cases "evict_step alg (sel, la, fr) (k, v)")
    with evict_step_selects(1) [OF True, of sel k] have "sel' = k" by simp
    then show ?thesis using kv st k Cons.IH [OF sub, of sel' la' fr'] by simp
  next
    case False
    then have "sel \<in> S \<or> (\<exists>(k, v) \<in> set xs. selects alg (la, fr) (cache_BytesToResponse v))"
      using Cons.prems(2) kv by auto
    then show ?thesis
      using kv evict_step_selects(2) [OF False] Cons.IH [OF sub] by simp
  qed
qed

lemma length_delete_present:
  "distinct (map fst al) \<Longrightarrow> k \<in> fst ` set al \<Longrightarrow> Suc (length (AList.delete k al)) = length al"
proof (induction al)
  case Nil
  then show ?case by simp
next
  case (Cons p al)
  show ?case
  proof (cases "fst p = k")
    case True
    then have "k \<notin> fst ` set al" using Cons.prems(1) by auto
    then have "AList.delete k al = al" by (simp add: delete_id)
    then show ?thesis using True by (cases p) simp
  next
    case False
    then show ?thesis using Cons by (cases p) auto
  qed
qed

lemma length_update_le: "length (AList.update k v al) \<le> Suc (length al)"
  by (induction al) auto

text \<open>
  Where the scan meets an entry that its policy can select, Set keeps the store within its
  capacity. For least-recently-used that is an entry whose lastAccess is before the clock
  reading of the eviction; for most-recently-used, one whose lastAccess is not before the
  zero time; for least-frequently-used, one whose frequency is below 2147483647; for
  most-frequently-used, one whose frequency is not negative.
\<close>

lemma Set_within_capacity:
  assumes "wf_store a" and "traversal trav a" and "int (length (store a)) \<le> capacity a"
    and "\<exists>(k, v) \<in> set (store a).
           selects (algorithm a) (snd (evict_init (algorithm a) evict_now))
             (cache_BytesToResponse v)"
  shows "int (length (store (Set a key response expiration now evict_now trav))) \<le> capacity a"
proof (cases "0 < length (store a) \<and> int (length (store a)) = capacity a")
  case True
  define victim where "victim = evict_select (algorithm a) evict_now trav"
  obtain la fr where init: "evict_init (algorithm a) evict_now = (0, la, fr)"
    by (simp add: evict_init_def)
  have "victim \<in> fst ` set trav"
    unfolding victim_def evict_select_def init
    using assms(2,4) init by (intro evict_scan_in) (auto simp: traversal_def)
  then have v: "victim \<in> fst ` set (store a)" using assms(2) by (simp add: traversal_def)
  then have m: "map_of (store a) victim \<noteq> None" by (simp add: map_of_eq_None_iff)
  have "Suc (length (AList.delete victim (store a))) = length (store a)"
    using assms(1) v by (intro length_delete_present) (simp add: wf_store_def)
  then have "length (AList.update key
      (Bytes \<lparr>Value = response, Expiration = expiration, LastAccess = now, Frequency = 1\<rparr>)
      (AList.delete victim (store a))) \<le> length (store a)"
    using length_update_le [of key "Bytes \<lparr>Value = response, Expiration = expiration,
        LastAccess = now, Frequency = 1\<rparr>" "AList.delete victim (store a)"]
    by linarith
  moreover have "store (evict a evict_now trav) = AList.delete victim (store a)"
    using m by (auto simp: evict_def Release_def victim_def)
  moreover have "store (Set a key response expiration now evict_now trav)
      = AList.update key
          (Bytes \<lparr>Value = response, Expiration = expiration, LastAccess = now, Frequency = 1\<rparr>)
          (store (evict a evict_now trav))"
  proof -
    have "0 < int (length (store a))" using True by linarith
    then have c: "0 < int (length (store a)) \<and> int (length (store a)) = capacity a"
      using True by blast
    show ?thesis unfolding Set_def Let_def if_P [OF c] by simp
  qed
  ultimately show ?thesis using True by simp
next
  case False
  then have "length (store a) = 0 \<or> int (length (store a)) < capacity a"
    using assms(3) by auto
  then show ?thesis
    using False assms(3,4)
      length_update_le [of key "Bytes \<lparr>Value = response, Expiration = expiration,
        LastAccess = now, Frequency = 1\<rparr>" "store a"]
    by (auto simp: Set_def Let_def)
qed


text \<open>
  C1: a least-recently-used store of capacity 2, built by NewAdapter, receives Set for the
  distinct keys 1, 2 and 3. In the first run the first two calls read the clock at 100 and
  101; the wall clock is then set back, and the third call reads 50 and its eviction scan
  51. In the second run the clock is coarse and every call reads 100. In both runs no stored
  lastAccess is before the clock reading of the scan, so the scan selects no entry and
  releases key 0, which is not stored: nothing is removed and the store holds 3 entries,
  more than its capacity. A fourth Set finds a length that differs from the capacity, skips
  the eviction, and the store grows to 4. The third run has an advancing clock and the tag
  FOO, which NewAdapter accepts and for which the scan has no case: again nothing is removed.
\<close>

theorem Set_exceeds_capacity:
  "NewAdapter [AdapterWithAlgorithm LRU, AdapterWithCapacity 2]
     = Inr \<lparr>capacity = 2, algorithm = LRU, store = []\<rparr>
   \<and> store (Set (Set (Set \<lparr>capacity = 2, algorithm = LRU, store = []\<rparr>
        1 [7] (clock 1000) (clock 100) (clock 100) [])
        2 [8] (clock 1000) (clock 101) (clock 101) [(1, Bytes (entry [7] 1000 100 1))])
        3 [9] (clock 1000) (clock 50) (clock 51) [(1, Bytes (entry [7] 1000 100 1)), (2, Bytes (entry [8] 1000 101 1))])
     = [(1, Bytes (entry [7] 1000 100 1)), (2, Bytes (entry [8] 1000 101 1)),
        (3, Bytes (entry [9] 1000 50 1))]
   \<and> length (store (Set (Set (Set (Set \<lparr>capacity = 2, algorithm = LRU, store = []\<rparr>
        1 [7] (clock 1000) (clock 100) (clock 100) [])
        2 [8] (clock 1000) (clock 101) (clock 101) [(1, Bytes (entry [7] 1000 100 1))])
        3 [9] (clock 1000) (clock 50) (clock 51) [(1, Bytes (entry [7] 1000 100 1)), (2, Bytes (entry [8] 1000 101 1))])
        4 [6] (clock 1000) (clock 52) (clock 53) [(1, Bytes (entry [7] 1000 100 1)), (2, Bytes (entry [8] 1000 101 1)),
          (3, Bytes (entry [9] 1000 50 1))]))
     = 4
   \<and> store (Set (Set (Set \<lparr>capacity = 2, algorithm = LRU, store = []\<rparr>
        1 [7] (clock 1000) (clock 100) (clock 100) [])
        2 [8] (clock 1000) (clock 100) (clock 100) [(1, Bytes (entry [7] 1000 100 1))])
        3 [9] (clock 1000) (clock 100) (clock 100) [(1, Bytes (entry [7] 1000 100 1)), (2, Bytes (entry [8] 1000 100 1))])
     = [(1, Bytes (entry [7] 1000 100 1)), (2, Bytes (entry [8] 1000 100 1)),
        (3, Bytes (entry [9] 1000 100 1))]
   \<and> NewAdapter [AdapterWithAlgorithm ''FOO'', AdapterWithCapacity 2]
     = Inr \<lparr>capacity = 2, algorithm = ''FOO'', store = []\<rparr>
   \<and> store (Set (Set (Set \<lparr>capacity = 2, algorithm = ''FOO'', store = []\<rparr>
        1 [7] (clock 1000) (clock 100) (clock 101) [])
        2 [8] (clock 1000) (clock 102) (clock 103) [(1, Bytes (entry [7] 1000 100 1))])
        3 [9] (clock 1000) (clock 104) (clock 105) [(1, Bytes (entry [7] 1000 100 1)), (2, Bytes (entry [8] 1000 102 1))])
     = [(1, Bytes (entry [7] 1000 100 1)), (2, Bytes (entry [8] 1000 102 1)),
        (3, Bytes (entry [9] 1000 104 1))]"
proof -
  have v: "valid_Response (entry [7] 1000 100 1)" "valid_Response (entry [8] 1000 101 1)"
    "valid_Response (entry [8] 1000 100 1)"
    by (rule valid_entry; simp add: valid_time_clock valid_int_def)+
  have d: "cache_BytesToResponse (Bytes (entry [7] 1000 100 1)) = entry [7] 1000 100 1"
    "cache_BytesToResponse (Bytes (entry [8] 1000 101 1)) = entry [8] 1000 101 1"
    "cache_BytesToResponse (Bytes (entry [8] 1000 100 1)) = entry [8] 1000 100 1"
    using v by (simp_all add: cache_BytesToResponse_def BytesToResponse_Bytes_eq)
  have s1: "Set \<lparr>capacity = 2, algorithm = LRU, store = []\<rparr> 1 [7] (clock 1000) (clock 100) (clock 100) []
      = \<lparr>capacity = 2, algorithm = LRU, store = [(1, Bytes (entry [7] 1000 100 1))]\<rparr>"
    by (simp add: Set_def entry_def)
  have s2: "Set \<lparr>capacity = 2, algorithm = LRU, store = [(1, Bytes (entry [7] 1000 100 1))]\<rparr>
        2 [8] (clock 1000) (clock t) (clock t) [(1, Bytes (entry [7] 1000 100 1))]
      = \<lparr>capacity = 2, algorithm = LRU,
         store = [(1, Bytes (entry [7] 1000 100 1)), (2, Bytes (entry [8] 1000 t 1))]\<rparr>" for t
    by (simp add: Set_def entry_def)
  have sel: "evict_select LRU (clock 51)
      [(1, Bytes (entry [7] 1000 100 1)), (2, Bytes (entry [8] 1000 101 1))] = 0"
    "evict_select LRU (clock 100)
      [(1, Bytes (entry [7] 1000 100 1)), (2, Bytes (entry [8] 1000 100 1))] = 0"
    by (simp_all add: evict_select_def evict_init_def evict_step_LRU d)
  have s3: "Set \<lparr>capacity = 2, algorithm = LRU,
         store = [(1, Bytes (entry [7] 1000 100 1)), (2, Bytes (entry [8] 1000 101 1))]\<rparr>
        3 [9] (clock 1000) (clock 50) (clock 51) [(1, Bytes (entry [7] 1000 100 1)), (2, Bytes (entry [8] 1000 101 1))]
      = \<lparr>capacity = 2, algorithm = LRU,
         store = [(1, Bytes (entry [7] 1000 100 1)), (2, Bytes (entry [8] 1000 101 1)),
                  (3, Bytes (entry [9] 1000 50 1))]\<rparr>"
    by (simp add: Set_def evict_def sel Release_def) (simp add: entry_def)
  have s3': "Set \<lparr>capacity = 2, algorithm = LRU,
         store = [(1, Bytes (entry [7] 1000 100 1)), (2, Bytes (entry [8] 1000 100 1))]\<rparr>
        3 [9] (clock 1000) (clock 100) (clock 100) [(1, Bytes (entry [7] 1000 100 1)), (2, Bytes (entry [8] 1000 100 1))]
      = \<lparr>capacity = 2, algorithm = LRU,
         store = [(1, Bytes (entry [7] 1000 100 1)), (2, Bytes (entry [8] 1000 100 1)),
                  (3, Bytes (entry [9] 1000 100 1))]\<rparr>"
    by (simp add: Set_def evict_def sel Release_def) (simp add: entry_def)
  have foo: "evict_step ''FOO'' st kv = st" for st kv
    by (cases st; cases kv)
       (simp add: evict_step_def Let_def LRU_def MRU_def LFU_def MFU_def)
  have self: "evict_select ''FOO'' (clock 105)
      [(1, Bytes (entry [7] 1000 100 1)), (2, Bytes (entry [8] 1000 102 1))] = 0"
    by (simp add: evict_select_def evict_init_def foo)
  have f3: "Set (Set (Set \<lparr>capacity = 2, algorithm = ''FOO'', store = []\<rparr>
        1 [7] (clock 1000) (clock 100) (clock 101) [])
        2 [8] (clock 1000) (clock 102) (clock 103) [(1, Bytes (entry [7] 1000 100 1))])
        3 [9] (clock 1000) (clock 104) (clock 105) [(1, Bytes (entry [7] 1000 100 1)), (2, Bytes (entry [8] 1000 102 1))]
      = \<lparr>capacity = 2, algorithm = ''FOO'',
         store = [(1, Bytes (entry [7] 1000 100 1)), (2, Bytes (entry [8] 1000 102 1)),
                  (3, Bytes (entry [9] 1000 104 1))]\<rparr>"
    by (simp add: Set_def entry_def [symmetric] evict_def self Release_def)
  have nf: "NewAdapter [AdapterWithAlgorithm ''FOO'', AdapterWithCapacity 2]
      = Inr \<lparr>capacity = 2, algorithm = ''FOO'', store = []\<rparr>"
    by (simp add: NewAdapter_def)
  have n: "NewAdapter [AdapterWithAlgorithm LRU, AdapterWithCapacity 2]
      = Inr \<lparr>capacity = 2, algorithm = LRU, store = []\<rparr>"
    by (simp add: NewAdapter_def) (simp add: LRU_def)
  show ?thesis
    unfolding f3 s1 s2 s3 s3' using n nf by (simp add: Set_def)
qed


subsection \<open>A run of the store\<close>

lemma wf_store_Get: "wf_store a \<Longrightarrow> wf_store (snd (Get a k now1 now2))"
  by (auto simp: Get_def Let_def wf_store_def Release_def distinct_update distinct_delete
      split: option.splits)

lemma wf_store_NewAdapter: "NewAdapter opts = Inr a \<Longrightarrow> wf_store a"
  by (auto simp: NewAdapter_def wf_store_def split: sum.splits if_splits)

text \<open>
  A least-recently-used store of capacity 3 with a clock that advances: keys 1, 2 and 3 are
  set, key 1 is read, and key 4 is set. The read has made key 2 the oldest entry, so key 2
  is evicted: it is a miss afterwards, and keys 1, 3 and 4 return their values.
\<close>

lemma run_capacity_3:
  fixes a0 a3 a4 a5 :: Adapter
  defines "a0 \<equiv> \<lparr>capacity = 3, algorithm = LRU, store = []\<rparr>"
  defines "a3 \<equiv> Set (Set (Set a0 1 [97] (clock 1000) (clock 10) (clock 11) [])
                    2 [98] (clock 1000) (clock 20) (clock 21) [(1, Bytes (entry [97] 1000 10 1))])
                    3 [99] (clock 1000) (clock 30) (clock 31)
                      [(2, Bytes (entry [98] 1000 20 1)), (1, Bytes (entry [97] 1000 10 1))]"
  defines "a4 \<equiv> snd (Get a3 1 (clock 40) (clock 41))"
  defines "a5 \<equiv> Set a4 4 [100] (clock 1000) (clock 50) (clock 51)
                    [(3, Bytes (entry [99] 1000 30 1)), (1, Bytes (entry [97] 1000 41 2)),
                     (2, Bytes (entry [98] 1000 20 1))]"
  shows "length (store a3) = 3"
    and "fst (Get a3 1 (clock 40) (clock 41)) = ([97], True)"
    and "store a5 = [(1, Bytes (entry [97] 1000 41 2)), (3, Bytes (entry [99] 1000 30 1)),
                     (4, Bytes (entry [100] 1000 50 1))]"
    and "fst (Get a5 2 (clock 60) (clock 61)) = ([], False)"
    and "fst (Get a5 1 (clock 60) (clock 61)) = ([97], True)"
    and "fst (Get a5 3 (clock 60) (clock 61)) = ([99], True)"
    and "fst (Get a5 4 (clock 60) (clock 61)) = ([100], True)"
proof -
  have v: "valid_Response (entry [x] 1000 l f)" if "0 \<le> l" "l < 100" "0 \<le> f" "f < 10"
    for x l f
    using that by (intro valid_entry) (simp_all add: valid_time_clock valid_int_def)
  have d: "BytesToResponse (Bytes (entry [x] 1000 l f)) = entry [x] 1000 l f"
    if "0 \<le> l" "l < 100" "0 \<le> f" "f < 10" for x l f
    using v [OF that] by (rule BytesToResponse_Bytes_eq)
  have s3: "a3 = \<lparr>capacity = 3, algorithm = LRU,
      store = [(1, Bytes (entry [97] 1000 10 1)), (2, Bytes (entry [98] 1000 20 1)),
               (3, Bytes (entry [99] 1000 30 1))]\<rparr>"
    by (simp add: a3_def a0_def Set_def entry_def)
  have w: "wrap_int64 2 = 2" by (simp add: wrap_int64_def)
  have e: "(entry [97] 1000 10 1)\<lparr>LastAccess := clock 41, Frequency := 2\<rparr> = entry [97] 1000 41 2"
    by (simp add: entry_def)
  have g: "Get a3 1 (clock 40) (clock 41) = (([97], True), \<lparr>capacity = 3, algorithm = LRU,
      store = [(1, Bytes (entry [97] 1000 41 2)), (2, Bytes (entry [98] 1000 20 1)),
               (3, Bytes (entry [99] 1000 30 1))]\<rparr>)"
    by (simp add: s3 Get_def d After_def w e)
  have sel: "evict_select LRU (clock 51)
      [(3, Bytes (entry [99] 1000 30 1)), (1, Bytes (entry [97] 1000 41 2)),
       (2, Bytes (entry [98] 1000 20 1))] = 2"
    by (simp add: evict_select_def evict_init_def evict_step_LRU cache_BytesToResponse_def d)
  have s5: "a5 = \<lparr>capacity = 3, algorithm = LRU,
      store = [(1, Bytes (entry [97] 1000 41 2)), (3, Bytes (entry [99] 1000 30 1)),
               (4, Bytes (entry [100] 1000 50 1))]\<rparr>"
    unfolding a5_def a4_def g
    by (simp add: Set_def evict_def sel Release_def) (simp add: entry_def)
  show "length (store a3) = 3" by (simp add: s3)
  show "fst (Get a3 1 (clock 40) (clock 41)) = ([97], True)" by (simp add: g)
  show "store a5 = [(1, Bytes (entry [97] 1000 41 2)), (3, Bytes (entry [99] 1000 30 1)),
                     (4, Bytes (entry [100] 1000 50 1))]"
    by (simp add: s5)
  show "fst (Get a5 2 (clock 60) (clock 61)) = ([], False)" by (simp add: s5 Get_def)
  show "fst (Get a5 1 (clock 60) (clock 61)) = ([97], True)" by (simp add: s5 Get_def d After_def)
  show "fst (Get a5 3 (clock 60) (clock 61)) = ([99], True)" by (simp add: s5 Get_def d After_def)
  show "fst (Get a5 4 (clock 60) (clock 61)) = ([100], True)" by (simp add: s5 Get_def d After_def)
qed


subsection \<open>Concurrent writers\<close>

text \<open>
  \<^verbatim>\<open>Set\<close> takes the lock three times. It reads the length of the map under the
  read lock and releases it; it tests the length it has read and calls \<^verbatim>\<open>evict\<close>,
  which scans the map under no lock and removes the selected key under the write lock of
  \<^verbatim>\<open>Release\<close>; and it takes the write lock for the insertion alone. The three
  definitions below are \<^verbatim>\<open>Set\<close> cut at these boundaries.
\<close>

definition Set_len :: "Adapter \<Rightarrow> int" where
  "Set_len a = int (length (store a))"

definition Set_evict_if :: "Adapter \<Rightarrow> int \<Rightarrow> Time \<Rightarrow> (key \<times> bytes) list \<Rightarrow> Adapter" where
  "Set_evict_if a len evict_now trav =
     (if 0 < len \<and> len = capacity a then evict a evict_now trav else a)"

definition Set_store :: "Adapter \<Rightarrow> key \<Rightarrow> Response \<Rightarrow> Adapter" where
  "Set_store a k res = a\<lparr>store := AList.update k (Bytes res) (store a)\<rparr>"

lemma Set_lock_steps:
  "Set a k response expiration now evict_now trav
   = Set_store (Set_evict_if a (Set_len a) evict_now trav) k
       \<lparr>Value = response, Expiration = expiration, LastAccess = now, Frequency = 1\<rparr>"
  by (simp add: Set_def Set_store_def Set_evict_if_def Set_len_def Let_def)

text \<open>
  A call of \<^verbatim>\<open>Set\<close> in progress: its arguments and clock readings, and the point
  it has reached, with the length it has read once it has read it. Between two steps of one
  call, other calls may take steps. The scan of \<^verbatim>\<open>evict\<close> visits the map in the
  order of the list; the model runs the scan and the removal in one step, which leaves out
  schedules of the program, and adds none.
\<close>

record call =
  c_key :: key
  c_response :: bytes
  c_expiration :: Time
  c_now :: Time
  c_evict_now :: Time

datatype pc = AtRLock | AtTest int | AtLock | Returned

fun Set_step :: "call \<Rightarrow> pc \<Rightarrow> Adapter \<Rightarrow> pc \<times> Adapter" where
  "Set_step c AtRLock a = (AtTest (Set_len a), a)"
| "Set_step c (AtTest len) a = (AtLock, Set_evict_if a len (c_evict_now c) (store a))"
| "Set_step c AtLock a =
     (Returned,
      Set_store a (c_key c)
        \<lparr>Value = c_response c, Expiration = c_expiration c, LastAccess = c_now c,
         Frequency = 1\<rparr>)"
| "Set_step c Returned a = (Returned, a)"

text \<open>
  Writers run in parallel: a schedule names the writer that takes the next step.
\<close>

definition step :: "call list \<Rightarrow> pc list \<times> Adapter \<Rightarrow> nat \<Rightarrow> pc list \<times> Adapter" where
  "step calls s i =
     (case s of (pcs, a) \<Rightarrow>
        if i < length pcs \<and> i < length calls then
          (case Set_step (calls ! i) (pcs ! i) a of (p, a') \<Rightarrow> (pcs[i := p], a'))
        else s)"

definition run :: "call list \<Rightarrow> nat list \<Rightarrow> Adapter \<Rightarrow> pc list \<times> Adapter" where
  "run calls schedule a = foldl (step calls) (map (\<lambda>c. AtRLock) calls, a) schedule"

text \<open>A writer that takes its three steps with no other step between them runs Set.\<close>

lemma run_one_writer:
  "run [c] [0, 0, 0] a
   = ([Returned],
      Set a (c_key c) (c_response c) (c_expiration c) (c_now c) (c_evict_now c) (store a))"
  by (simp add: run_def step_def Set_lock_steps)

text \<open>
  C9: a least-recently-used store of capacity 2 holds key 1. Two writers call Set, for the
  keys 2 and 3. Both read the length 1 before either inserts; for both the test fails, as 1
  is not the capacity, and no scan runs; then both insert, each under the write lock. Every
  access to the map in this schedule is under the lock, and the store holds 3 entries with
  capacity 2. When the writers run one after the other, the second one evicts key 1 and
  the store holds 2 entries.
\<close>

theorem Set_concurrent_exceeds_capacity:
  "run [\<lparr>c_key = 2, c_response = [8], c_expiration = clock 1000, c_now = clock 20,
          c_evict_now = clock 21\<rparr>,
        \<lparr>c_key = 3, c_response = [9], c_expiration = clock 1000, c_now = clock 30,
          c_evict_now = clock 31\<rparr>]
       [0, 1, 0, 1, 0, 1]
       \<lparr>capacity = 2, algorithm = LRU, store = [(1, Bytes (entry [7] 1000 10 1))]\<rparr>
     = ([Returned, Returned],
        \<lparr>capacity = 2, algorithm = LRU,
         store = [(1, Bytes (entry [7] 1000 10 1)), (2, Bytes (entry [8] 1000 20 1)),
                  (3, Bytes (entry [9] 1000 30 1))]\<rparr>)
   \<and> run [\<lparr>c_key = 2, c_response = [8], c_expiration = clock 1000, c_now = clock 20,
          c_evict_now = clock 21\<rparr>,
        \<lparr>c_key = 3, c_response = [9], c_expiration = clock 1000, c_now = clock 30,
          c_evict_now = clock 31\<rparr>]
       [0, 1, 0]
       \<lparr>capacity = 2, algorithm = LRU, store = [(1, Bytes (entry [7] 1000 10 1))]\<rparr>
     = ([AtLock, AtTest 1],
        \<lparr>capacity = 2, algorithm = LRU, store = [(1, Bytes (entry [7] 1000 10 1))]\<rparr>)
   \<and> capacity (snd (run [\<lparr>c_key = 2, c_response = [8], c_expiration = clock 1000,
          c_now = clock 20, c_evict_now = clock 21\<rparr>,
        \<lparr>c_key = 3, c_response = [9], c_expiration = clock 1000, c_now = clock 30,
          c_evict_now = clock 31\<rparr>]
       [0, 1, 0, 1, 0, 1]
       \<lparr>capacity = 2, algorithm = LRU, store = [(1, Bytes (entry [7] 1000 10 1))]\<rparr>))
     < int (length (store (snd (run [\<lparr>c_key = 2, c_response = [8],
          c_expiration = clock 1000, c_now = clock 20, c_evict_now = clock 21\<rparr>,
        \<lparr>c_key = 3, c_response = [9], c_expiration = clock 1000, c_now = clock 30,
          c_evict_now = clock 31\<rparr>]
       [0, 1, 0, 1, 0, 1]
       \<lparr>capacity = 2, algorithm = LRU, store = [(1, Bytes (entry [7] 1000 10 1))]\<rparr>))))
   \<and> run [\<lparr>c_key = 2, c_response = [8], c_expiration = clock 1000, c_now = clock 20,
          c_evict_now = clock 21\<rparr>,
        \<lparr>c_key = 3, c_response = [9], c_expiration = clock 1000, c_now = clock 30,
          c_evict_now = clock 31\<rparr>]
       [0, 0, 0, 1, 1, 1]
       \<lparr>capacity = 2, algorithm = LRU, store = [(1, Bytes (entry [7] 1000 10 1))]\<rparr>
     = ([Returned, Returned],
        \<lparr>capacity = 2, algorithm = LRU,
         store = [(2, Bytes (entry [8] 1000 20 1)), (3, Bytes (entry [9] 1000 30 1))]\<rparr>)"
proof -
  define cA where "cA = \<lparr>c_key = 2, c_response = [8], c_expiration = clock 1000,
      c_now = clock 20, c_evict_now = clock 21\<rparr>"
  define cB where "cB = \<lparr>c_key = 3, c_response = [9], c_expiration = clock 1000,
      c_now = clock 30, c_evict_now = clock 31\<rparr>"
  define a0 where
    "a0 = \<lparr>capacity = 2, algorithm = LRU, store = [(1, Bytes (entry [7] 1000 10 1))]\<rparr>"
  define a1 where
    "a1 = \<lparr>capacity = 2, algorithm = LRU,
           store = [(1, Bytes (entry [7] 1000 10 1)), (2, Bytes (entry [8] 1000 20 1))]\<rparr>"
  define a2 where
    "a2 = \<lparr>capacity = 2, algorithm = LRU,
           store = [(1, Bytes (entry [7] 1000 10 1)), (2, Bytes (entry [8] 1000 20 1)),
                    (3, Bytes (entry [9] 1000 30 1))]\<rparr>"
  define a3 where
    "a3 = \<lparr>capacity = 2, algorithm = LRU,
           store = [(2, Bytes (entry [8] 1000 20 1)), (3, Bytes (entry [9] 1000 30 1))]\<rparr>"
  have l0: "Set_step c AtRLock a0 = (AtTest 1, a0)" for c
    by (simp add: Set_len_def a0_def)
  have t0: "Set_step c (AtTest 1) a0 = (AtLock, a0)" for c
    by (simp add: Set_evict_if_def a0_def)
  have t1: "Set_step c (AtTest 1) a1 = (AtLock, a1)" for c
    by (simp add: Set_evict_if_def a1_def)
  have sA: "Set_step cA AtLock a0 = (Returned, a1)"
    by (simp add: Set_store_def a0_def a1_def cA_def entry_def)
  have sB: "Set_step cB AtLock a1 = (Returned, a2)"
    by (simp add: Set_store_def a1_def a2_def cB_def entry_def)
  have l1: "Set_step c AtRLock a1 = (AtTest 2, a1)" for c
    by (simp add: Set_len_def a1_def)
  have sel: "evict_select LRU (clock 31)
      [(1, Bytes (entry [7] 1000 10 1)), (2, Bytes (entry [8] 1000 20 1))] = 1"
    by (simp add: evict_select_def evict_init_def evict_step_LRU)
  have e1: "Set_step cB (AtTest 2) a1
      = (AtLock, \<lparr>capacity = 2, algorithm = LRU, store = [(2, Bytes (entry [8] 1000 20 1))]\<rparr>)"
    by (simp add: Set_evict_if_def a1_def cB_def evict_def sel Release_def)
  have sB': "Set_step cB AtLock
      \<lparr>capacity = 2, algorithm = LRU, store = [(2, Bytes (entry [8] 1000 20 1))]\<rparr>
      = (Returned, a3)"
    by (simp add: Set_store_def a3_def cB_def entry_def)
  have r1: "run [cA, cB] [0, 1, 0, 1, 0, 1] a0 = ([Returned, Returned], a2)"
    by (simp add: run_def step_def l0 t0 t1 sA sB del: Set_step.simps)
  have r2: "run [cA, cB] [0, 1, 0] a0 = ([AtLock, AtTest 1], a0)"
    by (simp add: run_def step_def l0 t0 del: Set_step.simps)
  have r3: "run [cA, cB] [0, 0, 0, 1, 1, 1] a0 = ([Returned, Returned], a3)"
    by (simp add: run_def step_def l0 t0 sA l1 e1 sB' del: Set_step.simps)
  have "capacity a2 < int (length (store a2))" by (simp add: a2_def)
  then show ?thesis
    using r1 r2 r3 unfolding cA_def cB_def a0_def a2_def a3_def by simp
qed


end
